theory Spec2Isabelle
  imports Main "HOL-Library.Word"
begin

section \<open>Data model\<close>

text \<open>
  The dispatcher \<open>asev::ev_service\<close> (ev_service.hpp) and its worker
  (detail/worker.hpp). Members keep their names without the trailing underscore.
  \<open>size_t\<close> and \<open>long\<close> are 64-bit (LP64): \<open>+\<close> and \<open>-\<close> wrap,
  \<open>unat\<close> reads a \<open>size_t\<close>, \<open>sint\<close> reads a \<open>long\<close>.
\<close>

type_synonym size_t = "64 word"
type_synonym long = "64 word"

text \<open>
  An event is an object allocated from a pool; the code handles it through
  \<open>event_base*\<close> and compares by object identity, so an event is its identity here.
\<close>

type_synonym event = nat

text \<open>A \<open>detail::worker*\<close> points into \<open>worker_list_\<close>: the position of the worker there;
  \<open>None\<close> is \<open>nullptr\<close>.\<close>

type_synonym worker_ptr = "nat option"

text \<open>
  Modelled from the spec: \<open>detail::basic_thrctx\<close> (its header is not part of the sources
  at hand). It carries the thread's logical index, a logger and the current worker
  pointer, which \<open>set_worker\<close> writes.
\<close>

record thrctx =
  thr_index :: size_t
  thr_logger :: "string option"
  cur_worker :: worker_ptr

datatype memory_order = memory_order_relaxed | memory_order_acq_rel | memory_order_release

datatype work_level = prior | minor

text \<open>
  The operations a dispatcher performs on objects it shares with other threads or with
  user code, in program order: the calls into an event (\<open>handle\<close>, \<open>release\<close>), the
  pushes onto a worker's queue, the atomic accesses to a workshop slot and to the
  round-robin counter with their memory order, the writes of a thread context's current worker, the stores of a stop flag, the
  synchronized increments of a thread's counter and the deletion of a registered pool.
\<close>

datatype op =
    Handle event thrctx
  | Release event
  | Push nat event
  | Exchange nat worker_ptr memory_order
  | Store nat worker_ptr memory_order
  | Set_worker nat worker_ptr
  | Store_stop nat bool
  | Synchronized_incr nat
  | Delete_pool nat
  | Load_sndidx memory_order
  | Store_sndidx size_t memory_order

text \<open>
  What a call \<open>ev->handle(thrctx)\<close> of user code does, as the dispatch loop sees it: it
  returns the auto-release flag, or it throws. While the handler ran, events may have
  been pushed onto the queue that is being drained (by the handler itself or by another
  producer); they are listed in push order.
\<close>

datatype outcome = Returns bool "event list" | Throws

text \<open>
  The ways a call does not come back with a value: a failed contract assertion, which
  ends the program (the operations performed until then are kept), an index outside a
  container (undefined behaviour of \<open>operator[]\<close>) and a remainder by zero.
\<close>

datatype error = Contract_violation "op list" | Out_of_range | Division_by_zero

text \<open>
  Modelled from the spec: the contract macros \<open>Ensures\<close> (worker.hpp) and
  \<open>ACTORX_ENSURES\<close> (ev_service.hpp), whose definitions are in configuration headers
  that are not part of the sources at hand. The spec: a failed assertion is fatal, "the
  runtime asserts and terminates".
\<close>

definition Ensures :: "bool \<Rightarrow> op list \<Rightarrow> error + unit" where
  "Ensures cond h = (if cond then Inr () else Inl (Contract_violation h))"

text \<open>
  Modelled from the spec: \<open>cque::mpsc_queue\<close>. \<open>push\<close> appends; \<open>pop\<close> returns the next
  element, or null when the queue is empty.
\<close>

definition que_push :: "'a \<Rightarrow> 'a list \<Rightarrow> 'a list" where
  "que_push x q = q @ [x]"

definition que_pop :: "'a list \<Rightarrow> 'a option \<times> 'a list" where
  "que_pop q = (case q of [] \<Rightarrow> (None, []) | x # xs \<Rightarrow> (Some x, xs))"

section \<open>The worker (detail/worker.hpp)\<close>

record worker =
  index :: size_t
  que :: "event list"

text \<open>\<open>worker(size_t worker_num, size_t index)\<close>: the first argument is not used.\<close>

definition worker_ctor :: "size_t \<Rightarrow> size_t \<Rightarrow> worker" where
  "worker_ctor worker_num i = \<lparr>index = i, que = []\<rparr>"

definition get_index :: "worker \<Rightarrow> size_t" where
  "get_index w = index w"

definition push_event :: "event \<Rightarrow> worker \<Rightarrow> worker" where
  "push_event ev w = w\<lparr>que := que_push ev (que w)\<rparr>"

text \<open>
  \<open>worker::work(thrctx)\<close>, the event loop. Each round pops one event; a null pop leaves
  the loop. The loop has no bound of its own (a handler may push onto the queue it is
  drained from), so the model counts rounds: \<open>None\<close> is a loop that has not returned
  within the given number of rounds. \<open>++works\<close> stands before the call of \<open>handle\<close>
  inside the \<open>try\<close>; the \<open>catch (...)\<close> runs \<open>Ensures(false)\<close>, after which the source
  goes on with \<open>is_auto\<close> still true.
\<close>

fun work_loop ::
  "nat \<Rightarrow> (event \<Rightarrow> thrctx \<Rightarrow> outcome) \<Rightarrow> thrctx \<Rightarrow> size_t \<Rightarrow> worker \<Rightarrow> op list
    \<Rightarrow> (error + size_t \<times> worker \<times> op list) option" where
  "work_loop 0 handle thrctx works w h = None"
| "work_loop (Suc fuel) handle thrctx works w h =
    (case que_pop (que w) of
      (None, q) \<Rightarrow> Some (Inr (works, w\<lparr>que := q\<rparr>, h))
    | (Some ev, q) \<Rightarrow>
        (let works = works + 1; h = h @ [Handle ev thrctx] in
         case handle ev thrctx of
           Returns is_auto pushed \<Rightarrow>
             work_loop fuel handle thrctx works (w\<lparr>que := q @ pushed\<rparr>)
               (if is_auto then h @ [Release ev] else h)
         | Throws \<Rightarrow>
             (case Ensures False h of
               Inl e \<Rightarrow> Some (Inl e)
             | Inr _ \<Rightarrow>
                 work_loop fuel handle thrctx works (w\<lparr>que := q\<rparr>) (h @ [Release ev]))))"

definition work ::
  "nat \<Rightarrow> (event \<Rightarrow> thrctx \<Rightarrow> outcome) \<Rightarrow> thrctx \<Rightarrow> worker \<Rightarrow> op list
    \<Rightarrow> (error + size_t \<times> worker \<times> op list) option" where
  "work fuel handle thrctx w h = work_loop fuel handle thrctx 0 w h"

text \<open>\<open>~worker()\<close>: pops with the pool deleter until the queue is empty; every popped
  event goes back to its pool.\<close>

fun pop_unique_all :: "event list \<Rightarrow> op list \<Rightarrow> event list \<times> op list" where
  "pop_unique_all [] h = ([], h)"
| "pop_unique_all (ev # q) h = pop_unique_all q (h @ [Release ev])"

definition worker_dtor :: "worker \<Rightarrow> op list \<Rightarrow> worker \<times> op list" where
  "worker_dtor w h = (case pop_unique_all (que w) h of (q, h') \<Rightarrow> (w\<lparr>que := q\<rparr>, h'))"

text \<open>What one round of a dispatch loop adds to the operations, and what the handler
  of an event pushed, read off the handler's outcome.\<close>

definition dispatched :: "(event \<Rightarrow> thrctx \<Rightarrow> outcome) \<Rightarrow> thrctx \<Rightarrow> event \<Rightarrow> op list" where
  "dispatched handle thrctx ev =
    (case handle ev thrctx of
      Returns is_auto pushed \<Rightarrow> if is_auto then [Handle ev thrctx, Release ev] else [Handle ev thrctx]
    | Throws \<Rightarrow> [Handle ev thrctx])"

definition pushed_by :: "(event \<Rightarrow> thrctx \<Rightarrow> outcome) \<Rightarrow> thrctx \<Rightarrow> event \<Rightarrow> event list" where
  "pushed_by handle thrctx ev =
    (case handle ev thrctx of Returns is_auto pushed \<Rightarrow> pushed | Throws \<Rightarrow> [])"

definition returns_quietly :: "(event \<Rightarrow> thrctx \<Rightarrow> outcome) \<Rightarrow> thrctx \<Rightarrow> event \<Rightarrow> bool" where
  "returns_quietly handle thrctx ev =
    (case handle ev thrctx of Returns is_auto pushed \<Rightarrow> pushed = [] | Throws \<Rightarrow> False)"

section \<open>The dispatcher (ev_service.hpp)\<close>

subsection \<open>State\<close>

text \<open>
  \<open>thread_data\<close>: \<open>cnt\<close> is the value of the pending-work counter and \<open>cv\<close> the number
  of signals delivered to the condition variable; the mutex is free between two
  operations and has no field. \<open>thrctx_p\<close> is the object \<open>thrctx_\<close> owns, \<open>stop_flag\<close> is
  \<open>stop_\<close>. The host coroutine context is left out.
\<close>

record thread_data =
  cnt :: nat
  cv :: nat
  thrctx_p :: thrctx
  tstart_que :: "event list"
  texit_que :: "event list"
  tsegv_que :: "event list"
  stop_flag :: bool

text \<open>
  \<open>ev_service\<close>: a \<open>logger_ptr\<close> is the name of the logger, \<open>None\<close> when null; the
  registered thread-local pools are known by their identities. \<open>ops\<close> lists the
  operations performed so far, oldest first.
\<close>

record ev_service =
  uid :: "32 word"
  logger :: "string option"
  local_pool_queue :: "nat list"
  thread_data_list :: "thread_data list"
  worker_list :: "worker list"
  workshop :: "worker_ptr list"
  curr_sndidx :: size_t
  stopped_workers :: size_t
  ops :: "op list"

subsection \<open>Construction\<close>

definition thread_data_ctor :: "size_t \<Rightarrow> string option \<Rightarrow> thread_data" where
  "thread_data_ctor i lg =
    \<lparr>cnt = 0, cv = 0,
     thrctx_p = \<lparr>thr_index = i, thr_logger = lg, cur_worker = None\<rparr>,
     tstart_que = [], texit_que = [], tsegv_que = [], stop_flag = False\<rparr>"

text \<open>
  \<open>ev_service(size_t thread_num, logger_ptr logger, size_t worker_num)\<close>, lines 82 to
  138, in the build without \<open>ACTORX_DEBUG\<close>. \<open>evs_uid\<close> is the value of the static
  counter the constructor reads. The three loops fill \<open>thread_data_list_\<close>,
  \<open>worker_list_\<close> and \<open>workshop_\<close>; the pointer to the worker at position \<open>i\<close> is
  \<open>Some i\<close>.
\<close>

definition ev_service_ctor :: "32 word \<Rightarrow> size_t \<Rightarrow> string option \<Rightarrow> size_t \<Rightarrow> ev_service" where
  "ev_service_ctor evs_uid thread_num lg worker_num =
    (let lg = (case lg of None \<Rightarrow> Some ''null_logger'' | Some l \<Rightarrow> Some l);
         thread_num = (if thread_num = 0 then 1 else thread_num);
         worker_num = (if worker_num < thread_num then thread_num else worker_num);
         tds = map (\<lambda>i. thread_data_ctor (of_nat i) lg) [0..<unat thread_num];
         wkrs = map (\<lambda>i. worker_ctor worker_num (of_nat i)) [0..<unat worker_num]
     in \<lparr>uid = evs_uid, logger = lg, local_pool_queue = [],
         thread_data_list = tds, worker_list = wkrs,
         workshop = map Some [0..<length wkrs],
         curr_sndidx = 0, stopped_workers = 0, ops = []\<rparr>)"

definition get_thread_num :: "ev_service \<Rightarrow> size_t" where
  "get_thread_num s = of_nat (length (thread_data_list s))"

definition get_worker_num :: "ev_service \<Rightarrow> size_t" where
  "get_worker_num s = of_nat (length (worker_list s))"

text \<open>The thread and worker counts the constructor settles on, for requested counts
  \<open>tn\<close> and \<open>wn\<close>.\<close>

definition eff_threads :: "size_t \<Rightarrow> size_t" where
  "eff_threads tn = (if tn = 0 then 1 else tn)"

definition eff_workers :: "size_t \<Rightarrow> size_t \<Rightarrow> size_t" where
  "eff_workers tn wn = (if wn < eff_threads tn then eff_threads tn else wn)"

subsection \<open>Strand selection\<close>

text \<open>The two accesses to the atomic \<open>curr_sndidx_\<close>.\<close>

definition load_sndidx :: "memory_order \<Rightarrow> ev_service \<Rightarrow> size_t \<times> ev_service" where
  "load_sndidx mo s = (curr_sndidx s, s\<lparr>ops := ops s @ [Load_sndidx mo]\<rparr>)"

definition store_sndidx :: "size_t \<Rightarrow> memory_order \<Rightarrow> ev_service \<Rightarrow> ev_service" where
  "store_sndidx v mo s = s\<lparr>curr_sndidx := v, ops := ops s @ [Store_sndidx v mo]\<rparr>"

text \<open>\<open>select_strand_index\<close>, lines 661 to 672, run from its load to its store with no
  other access to \<open>curr_sndidx_\<close> in between.\<close>

definition select_strand_index :: "ev_service \<Rightarrow> size_t \<times> ev_service" where
  "select_strand_index s =
    (case load_sndidx memory_order_relaxed s of
      (sndidx, s) \<Rightarrow>
        (let result = sndidx;
             sndidx = sndidx + 1;
             sndidx = (if sndidx \<ge> get_worker_num s then 0 else sndidx)
         in (result, store_sndidx sndidx memory_order_relaxed s)))"

text \<open>
  The same function as the two accesses to the atomic \<open>curr_sndidx_\<close> it is made of: the
  relaxed load of line 663, followed by the computation on the local \<open>sndidx\<close>, and the
  relaxed store of line 670. A call in progress holds its locals; calls of several
  threads take their steps in any order.
\<close>

datatype sel_pc = At_load | At_store | Returned

record sel_call =
  pc :: sel_pc
  sndidx :: size_t
  result :: size_t

definition sel_begin :: sel_call where
  "sel_begin = \<lparr>pc = At_load, sndidx = 0, result = 0\<rparr>"

definition sel_step :: "sel_call \<Rightarrow> ev_service \<Rightarrow> sel_call \<times> ev_service" where
  "sel_step c s =
    (case pc c of
      At_load \<Rightarrow>
        (case load_sndidx memory_order_relaxed s of
          (i, s) \<Rightarrow>
            (let r = i;
                 i = i + 1;
                 i = (if i \<ge> get_worker_num s then 0 else i)
             in (c\<lparr>pc := At_store, sndidx := i, result := r\<rparr>, s)))
    | At_store \<Rightarrow> (c\<lparr>pc := Returned\<rparr>, store_sndidx (sndidx c) memory_order_relaxed s)
    | Returned \<Rightarrow> (c, s))"

text \<open>A schedule names, step by step, the call that moves next.\<close>

fun run_schedule :: "nat list \<Rightarrow> sel_call list \<times> ev_service \<Rightarrow> sel_call list \<times> ev_service" where
  "run_schedule [] cs = cs"
| "run_schedule (t # ts) (calls, s) =
    (if t < length calls
     then (case sel_step (calls ! t) s of (c, s') \<Rightarrow> run_schedule ts (calls[t := c], s'))
     else run_schedule ts (calls, s))"

text \<open>\<open>n\<close> calls, one after the other, and the indices they return.\<close>

fun select_strand_indices :: "nat \<Rightarrow> ev_service \<Rightarrow> size_t list \<times> ev_service" where
  "select_strand_indices 0 s = ([], s)"
| "select_strand_indices (Suc n) s =
    (case select_strand_index s of (i, s') \<Rightarrow>
      (case select_strand_indices n s' of (is, s'') \<Rightarrow> (i # is, s'')))"

text \<open>What holds of a call in progress and of a set of calls with the dispatcher: past
  its load, a call holds a result and a next value below \<open>worker_num\<close>.\<close>

definition sel_inv :: "ev_service \<Rightarrow> sel_call \<Rightarrow> bool" where
  "sel_inv s c =
    ((pc c = At_load \<or> unat (sndidx c) < length (worker_list s))
     \<and> (pc c = At_load \<or> unat (result c) < length (worker_list s)))"

definition sel_ok :: "sel_call list \<times> ev_service \<Rightarrow> bool" where
  "sel_ok cs =
    (case cs of (calls, s) \<Rightarrow>
      unat (curr_sndidx s) < length (worker_list s) \<and> list_all (sel_inv s) calls)"

subsection \<open>Submission and notification\<close>

text \<open>
  Modelled from the spec: \<open>cque::mpsc_count::synchronized_incr(mtx, cv)\<close>, which
  "increments and, under mtx, signals cv".
\<close>

definition synchronized_incr :: "nat \<Rightarrow> ev_service \<Rightarrow> ev_service" where
  "synchronized_incr t s =
    (let thrdat = thread_data_list s ! t
     in s\<lparr>thread_data_list := (thread_data_list s)[t := thrdat\<lparr>cnt := cnt thrdat + 1, cv := cv thrdat + 1\<rparr>],
          ops := ops s @ [Synchronized_incr t]\<rparr>)"

text \<open>\<open>notify_thread\<close>, lines 654 to 659. The remainder by an empty thread list is a
  division by zero.\<close>

definition notify_thread :: "nat \<Rightarrow> ev_service \<Rightarrow> error + ev_service" where
  "notify_thread wkridx s =
    (if length (thread_data_list s) = 0 then Inl Division_by_zero
     else (let thridx = wkridx mod length (thread_data_list s)
           in Inr (synchronized_incr thridx s)))"

text \<open>\<open>pri_async\<close>, lines 599 to 603.\<close>

definition pri_async :: "nat \<Rightarrow> event \<Rightarrow> ev_service \<Rightarrow> error + ev_service" where
  "pri_async target ev s =
    (if target < length (worker_list s)
     then notify_thread target
       (s\<lparr>worker_list := (worker_list s)[target := push_event ev (worker_list s ! target)],
          ops := ops s @ [Push target ev]\<rparr>)
     else Inl Out_of_range)"

text \<open>
  \<open>make_event<Event>\<close>, lines 269 to 308. \<open>Event\<close> is one of the event types the
  dispatcher makes itself. The calling thread is known by what \<open>current()\<close> returns
  for it (the index of the dispatcher thread it is, or null) and by the entry for this
  dispatcher's \<open>uid_\<close> in its thread-local \<open>pool_array\<close> of each event type. On a thread
  that is not a dispatcher thread, the first call for an event type makes a pool and
  pushes it onto \<open>local_pool_queue_\<close>. \<open>max_ev_service\<close> is the constant
  \<open>ASEV_MAX_EV_SERVICE\<close>, \<open>new_pool\<close> gives the pool that \<open>new\<close> returns for an event
  type and \<open>obj\<close> is the object the pool hands out. On a dispatcher thread the pool is
  the one of the thread context, which has no part in the dispatcher's state.
\<close>

datatype event_type = post_event | spawn_event | tstart_event | texit_event | tsegv_event

record caller =
  current :: "nat option"
  pool_array :: "event_type \<Rightarrow> nat option"

text \<open>
  Modelled from the spec: the contract macro \<open>ACTORX_EXPECTS\<close>, defined in a
  configuration header that is not part of the sources at hand. The spec: an invariant
  violation such as \<open>uid \<ge> MAX_EV_SERVICE\<close> is a "precondition assertion; fatal".
\<close>

definition Expects :: "bool \<Rightarrow> op list \<Rightarrow> error + unit" where
  "Expects cond h = (if cond then Inr () else Inl (Contract_violation h))"

definition make_event ::
  "nat \<Rightarrow> (event_type \<Rightarrow> nat) \<Rightarrow> event_type \<Rightarrow> event \<Rightarrow> caller \<Rightarrow> ev_service
    \<Rightarrow> error + event \<times> caller \<times> ev_service" where
  "make_event max_ev_service new_pool tp obj c s =
    (case current c of
      None \<Rightarrow>
        (case Expects (unat (uid s) < max_ev_service) (ops s) of
          Inl e \<Rightarrow> Inl e
        | Inr _ \<Rightarrow>
            (case pool_array c tp of
              None \<Rightarrow>
                Inr (obj, c\<lparr>pool_array := (pool_array c)(tp := Some (new_pool tp))\<rparr>,
                  s\<lparr>local_pool_queue := que_push (new_pool tp) (local_pool_queue s)\<rparr>)
            | Some pool \<Rightarrow> Inr (obj, c, s)))
    | Some thrctx \<Rightarrow> Inr (obj, c, s))"

text \<open>\<open>async\<close>, lines 233 to 236: the strand index is selected first, as the argument
  of \<open>pri_async\<close>.\<close>

definition async :: "event \<Rightarrow> ev_service \<Rightarrow> error + ev_service" where
  "async ev s = (case select_strand_index s of (target, s') \<Rightarrow> pri_async (unat target) ev s')"

text \<open>\<open>pri_post\<close> and \<open>post\<close>, lines 605 to 610 and 216 to 220; \<open>pri_spawn\<close> and \<open>spawn\<close>,
  lines 612 to 619 and 223 to 227. The handler and the stack size are set in the event
  that \<open>make_event\<close> returned.\<close>

definition pri_post ::
  "nat \<Rightarrow> (event_type \<Rightarrow> nat) \<Rightarrow> event \<Rightarrow> nat \<Rightarrow> caller \<Rightarrow> ev_service
    \<Rightarrow> error + caller \<times> ev_service" where
  "pri_post max_ev_service new_pool obj target c s =
    (case make_event max_ev_service new_pool post_event obj c s of
      Inl e \<Rightarrow> Inl e
    | Inr (ev, c, s) \<Rightarrow>
        (case pri_async target ev s of Inl e \<Rightarrow> Inl e | Inr s \<Rightarrow> Inr (c, s)))"

definition post ::
  "nat \<Rightarrow> (event_type \<Rightarrow> nat) \<Rightarrow> event \<Rightarrow> caller \<Rightarrow> ev_service \<Rightarrow> error + caller \<times> ev_service" where
  "post max_ev_service new_pool obj c s =
    (case select_strand_index s of
      (target, s') \<Rightarrow> pri_post max_ev_service new_pool obj (unat target) c s')"

definition pri_spawn ::
  "nat \<Rightarrow> (event_type \<Rightarrow> nat) \<Rightarrow> event \<Rightarrow> nat \<Rightarrow> caller \<Rightarrow> ev_service
    \<Rightarrow> error + caller \<times> ev_service" where
  "pri_spawn max_ev_service new_pool obj target c s =
    (case make_event max_ev_service new_pool spawn_event obj c s of
      Inl e \<Rightarrow> Inl e
    | Inr (ev, c, s) \<Rightarrow>
        (case pri_async target ev s of Inl e \<Rightarrow> Inl e | Inr s \<Rightarrow> Inr (c, s)))"

definition spawn ::
  "nat \<Rightarrow> (event_type \<Rightarrow> nat) \<Rightarrow> event \<Rightarrow> caller \<Rightarrow> ev_service \<Rightarrow> error + caller \<times> ev_service" where
  "spawn max_ev_service new_pool obj c s =
    (case select_strand_index s of
      (target, s') \<Rightarrow> pri_spawn max_ev_service new_pool obj (unat target) c s')"

text \<open>
  A generic submission is a call of \<open>post\<close>, \<open>spawn\<close> or \<open>async\<close>; for \<open>post\<close> and
  \<open>spawn\<close> the event named is the object \<open>make_event\<close> hands out for the handler.
  \<open>submit_all\<close> makes the submissions of a list one after the other, from one thread;
  \<open>pushes\<close> reads the pushes onto worker queues off a list of operations.
\<close>

datatype submission = Post event | Spawn event | Async event

definition event_of :: "submission \<Rightarrow> event" where
  "event_of sub = (case sub of Post obj \<Rightarrow> obj | Spawn obj \<Rightarrow> obj | Async ev \<Rightarrow> ev)"

definition submit ::
  "nat \<Rightarrow> (event_type \<Rightarrow> nat) \<Rightarrow> submission \<Rightarrow> caller \<times> ev_service \<Rightarrow> error + caller \<times> ev_service" where
  "submit max_ev_service new_pool sub cs =
    (case cs of
      (c, s) \<Rightarrow>
        (case sub of
          Post obj \<Rightarrow> post max_ev_service new_pool obj c s
        | Spawn obj \<Rightarrow> spawn max_ev_service new_pool obj c s
        | Async ev \<Rightarrow> (case async ev s of Inl e \<Rightarrow> Inl e | Inr s \<Rightarrow> Inr (c, s))))"

fun submit_all ::
  "nat \<Rightarrow> (event_type \<Rightarrow> nat) \<Rightarrow> submission list \<Rightarrow> caller \<times> ev_service
    \<Rightarrow> error + caller \<times> ev_service" where
  "submit_all max_ev_service new_pool [] cs = Inr cs"
| "submit_all max_ev_service new_pool (sub # subs) cs =
    (case submit max_ev_service new_pool sub cs of
      Inl e \<Rightarrow> Inl e
    | Inr cs \<Rightarrow> submit_all max_ev_service new_pool subs cs)"

definition pushes :: "op list \<Rightarrow> (nat \<times> event) list" where
  "pushes h = concat (map (\<lambda>x. case x of Push w ev \<Rightarrow> [(w, ev)] | _ \<Rightarrow> []) h)"

text \<open>
  \<open>pri_tstart\<close>, \<open>pri_texit\<close> and \<open>pri_tsegv\<close>, lines 621 to 652: for each thread of
  \<open>thread_data_list_\<close> in turn, an event is made and pushed onto that thread's queue.
  \<open>obj i\<close> is the object the pool hands out in the round of thread \<open>i\<close>.
\<close>

fun pri_tstart_loop ::
  "nat \<Rightarrow> (event_type \<Rightarrow> nat) \<Rightarrow> (nat \<Rightarrow> event) \<Rightarrow> nat list \<Rightarrow> caller \<times> ev_service
    \<Rightarrow> error + caller \<times> ev_service" where
  "pri_tstart_loop max_ev_service new_pool obj [] cs = Inr cs"
| "pri_tstart_loop max_ev_service new_pool obj (i # is) (c, s) =
    (case make_event max_ev_service new_pool tstart_event (obj i) c s of
      Inl e \<Rightarrow> Inl e
    | Inr (ev, c, s) \<Rightarrow>
        (let thrdat = thread_data_list s ! i
         in pri_tstart_loop max_ev_service new_pool obj is
              (c, s\<lparr>thread_data_list :=
                (thread_data_list s)[i := thrdat\<lparr>tstart_que := que_push ev (tstart_que thrdat)\<rparr>]\<rparr>)))"

definition pri_tstart ::
  "nat \<Rightarrow> (event_type \<Rightarrow> nat) \<Rightarrow> (nat \<Rightarrow> event) \<Rightarrow> caller \<Rightarrow> ev_service
    \<Rightarrow> error + caller \<times> ev_service" where
  "pri_tstart max_ev_service new_pool obj c s =
    pri_tstart_loop max_ev_service new_pool obj [0..<length (thread_data_list s)] (c, s)"

fun pri_texit_loop ::
  "nat \<Rightarrow> (event_type \<Rightarrow> nat) \<Rightarrow> (nat \<Rightarrow> event) \<Rightarrow> nat list \<Rightarrow> caller \<times> ev_service
    \<Rightarrow> error + caller \<times> ev_service" where
  "pri_texit_loop max_ev_service new_pool obj [] cs = Inr cs"
| "pri_texit_loop max_ev_service new_pool obj (i # is) (c, s) =
    (case make_event max_ev_service new_pool texit_event (obj i) c s of
      Inl e \<Rightarrow> Inl e
    | Inr (ev, c, s) \<Rightarrow>
        (let thrdat = thread_data_list s ! i
         in pri_texit_loop max_ev_service new_pool obj is
              (c, s\<lparr>thread_data_list :=
                (thread_data_list s)[i := thrdat\<lparr>texit_que := que_push ev (texit_que thrdat)\<rparr>]\<rparr>)))"

definition pri_texit ::
  "nat \<Rightarrow> (event_type \<Rightarrow> nat) \<Rightarrow> (nat \<Rightarrow> event) \<Rightarrow> caller \<Rightarrow> ev_service
    \<Rightarrow> error + caller \<times> ev_service" where
  "pri_texit max_ev_service new_pool obj c s =
    pri_texit_loop max_ev_service new_pool obj [0..<length (thread_data_list s)] (c, s)"

fun pri_tsegv_loop ::
  "nat \<Rightarrow> (event_type \<Rightarrow> nat) \<Rightarrow> (nat \<Rightarrow> event) \<Rightarrow> nat list \<Rightarrow> caller \<times> ev_service
    \<Rightarrow> error + caller \<times> ev_service" where
  "pri_tsegv_loop max_ev_service new_pool obj [] cs = Inr cs"
| "pri_tsegv_loop max_ev_service new_pool obj (i # is) (c, s) =
    (case make_event max_ev_service new_pool tsegv_event (obj i) c s of
      Inl e \<Rightarrow> Inl e
    | Inr (ev, c, s) \<Rightarrow>
        (let thrdat = thread_data_list s ! i
         in pri_tsegv_loop max_ev_service new_pool obj is
              (c, s\<lparr>thread_data_list :=
                (thread_data_list s)[i := thrdat\<lparr>tsegv_que := que_push ev (tsegv_que thrdat)\<rparr>]\<rparr>)))"

definition pri_tsegv ::
  "nat \<Rightarrow> (event_type \<Rightarrow> nat) \<Rightarrow> (nat \<Rightarrow> event) \<Rightarrow> caller \<Rightarrow> ev_service
    \<Rightarrow> error + caller \<times> ev_service" where
  "pri_tsegv max_ev_service new_pool obj c s =
    pri_tsegv_loop max_ev_service new_pool obj [0..<length (thread_data_list s)] (c, s)"

subsection \<open>Stop\<close>

definition store_stop :: "nat \<Rightarrow> bool \<Rightarrow> ev_service \<Rightarrow> ev_service" where
  "store_stop t b s =
    s\<lparr>thread_data_list := (thread_data_list s)[t := (thread_data_list s ! t)\<lparr>stop_flag := b\<rparr>],
      ops := ops s @ [Store_stop t b]\<rparr>"

definition is_stop :: "thread_data \<Rightarrow> bool" where
  "is_stop thrdat = stop_flag thrdat"

text \<open>\<open>stop\<close>, lines 390 to 402: two loops over \<open>thread_data_list_\<close>, one after the other.\<close>

definition stop :: "ev_service \<Rightarrow> ev_service" where
  "stop s =
    (let s = fold (\<lambda>t. store_stop t True) [0..<length (thread_data_list s)] s
     in fold synchronized_incr [0..<length (thread_data_list s)] s)"

subsection \<open>The per-thread run loop\<close>

text \<open>
  \<open>trun(tidx)\<close>, lines 419 to 432: the workers of the thread. \<open>trun\<close> runs on a thread of
  \<open>thread_data_list_\<close>, so the list is not empty there.
\<close>

definition priors :: "nat \<Rightarrow> ev_service \<Rightarrow> nat list" where
  "priors tidx s =
    filter (\<lambda>n. n mod length (thread_data_list s) = tidx) [0..<length (worker_list s)]"

definition minors :: "nat \<Rightarrow> ev_service \<Rightarrow> nat list" where
  "minors tidx s =
    filter (\<lambda>n. n mod length (thread_data_list s) \<noteq> tidx) [0..<length (worker_list s)]"

text \<open>
  The three lifecycle drains: tstart (\<open>trun\<close>, lines 435 to 457), texit (the scoped
  action of \<open>trun\<close>, lines 463 to 485) and tsegv (the recovery callback of \<open>run\<close>, lines
  334 to 359, which has set the stack trace in the event before it calls \<open>handle\<close>).
  \<open>thrdat\<close> is the thread's \<open>thread_data\<close>, \<open>thrctx\<close> the context it owns. The rounds are
  counted as in \<open>work_loop\<close>.
\<close>

fun tstart_loop ::
  "nat \<Rightarrow> (event \<Rightarrow> thrctx \<Rightarrow> outcome) \<Rightarrow> thread_data \<Rightarrow> op list
    \<Rightarrow> (error + thread_data \<times> op list) option" where
  "tstart_loop 0 handle thrdat h = None"
| "tstart_loop (Suc fuel) handle thrdat h =
    (case que_pop (tstart_que thrdat) of
      (None, q) \<Rightarrow> Some (Inr (thrdat\<lparr>tstart_que := q\<rparr>, h))
    | (Some ev, q) \<Rightarrow>
        (let thrctx = thrctx_p thrdat; h = h @ [Handle ev thrctx] in
         case handle ev thrctx of
           Returns is_auto pushed \<Rightarrow>
             tstart_loop fuel handle (thrdat\<lparr>tstart_que := q @ pushed\<rparr>)
               (if is_auto then h @ [Release ev] else h)
         | Throws \<Rightarrow>
             (case Ensures False h of
               Inl e \<Rightarrow> Some (Inl e)
             | Inr _ \<Rightarrow> tstart_loop fuel handle (thrdat\<lparr>tstart_que := q\<rparr>) (h @ [Release ev]))))"

fun texit_loop ::
  "nat \<Rightarrow> (event \<Rightarrow> thrctx \<Rightarrow> outcome) \<Rightarrow> thread_data \<Rightarrow> op list
    \<Rightarrow> (error + thread_data \<times> op list) option" where
  "texit_loop 0 handle thrdat h = None"
| "texit_loop (Suc fuel) handle thrdat h =
    (case que_pop (texit_que thrdat) of
      (None, q) \<Rightarrow> Some (Inr (thrdat\<lparr>texit_que := q\<rparr>, h))
    | (Some ev, q) \<Rightarrow>
        (let thrctx = thrctx_p thrdat; h = h @ [Handle ev thrctx] in
         case handle ev thrctx of
           Returns is_auto pushed \<Rightarrow>
             texit_loop fuel handle (thrdat\<lparr>texit_que := q @ pushed\<rparr>)
               (if is_auto then h @ [Release ev] else h)
         | Throws \<Rightarrow>
             (case Ensures False h of
               Inl e \<Rightarrow> Some (Inl e)
             | Inr _ \<Rightarrow> texit_loop fuel handle (thrdat\<lparr>texit_que := q\<rparr>) (h @ [Release ev]))))"

text \<open>The tsegv drain counts the events it has handled in the \<open>int\<close> \<open>count\<close>.\<close>

fun tsegv_loop ::
  "nat \<Rightarrow> (event \<Rightarrow> thrctx \<Rightarrow> outcome) \<Rightarrow> 32 word \<Rightarrow> thread_data \<Rightarrow> op list
    \<Rightarrow> (error + 32 word \<times> thread_data \<times> op list) option" where
  "tsegv_loop 0 handle count thrdat h = None"
| "tsegv_loop (Suc fuel) handle count thrdat h =
    (case que_pop (tsegv_que thrdat) of
      (None, q) \<Rightarrow> Some (Inr (count, thrdat\<lparr>tsegv_que := q\<rparr>, h))
    | (Some ev, q) \<Rightarrow>
        (let thrctx = thrctx_p thrdat; h = h @ [Handle ev thrctx] in
         case handle ev thrctx of
           Returns is_auto pushed \<Rightarrow>
             tsegv_loop fuel handle (count + 1) (thrdat\<lparr>tsegv_que := q @ pushed\<rparr>)
               (if is_auto then h @ [Release ev] else h)
         | Throws \<Rightarrow>
             (case Ensures False h of
               Inl e \<Rightarrow> Some (Inl e)
             | Inr _ \<Rightarrow>
                 tsegv_loop fuel handle (count + 1) (thrdat\<lparr>tsegv_que := q\<rparr>) (h @ [Release ev]))))"

subsection \<open>Claiming a worker\<close>

text \<open>The accesses to a workshop slot, and \<open>thrctx.set_worker\<close> on the context of thread
  \<open>tidx\<close>.\<close>

definition exchange :: "nat \<Rightarrow> worker_ptr \<Rightarrow> memory_order \<Rightarrow> ev_service \<Rightarrow> worker_ptr \<times> ev_service" where
  "exchange i v mo s =
    (workshop s ! i, s\<lparr>workshop := (workshop s)[i := v], ops := ops s @ [Exchange i v mo]\<rparr>)"

definition store :: "nat \<Rightarrow> worker_ptr \<Rightarrow> memory_order \<Rightarrow> ev_service \<Rightarrow> ev_service" where
  "store i v mo s = s\<lparr>workshop := (workshop s)[i := v], ops := ops s @ [Store i v mo]\<rparr>"

definition set_worker :: "nat \<Rightarrow> worker_ptr \<Rightarrow> ev_service \<Rightarrow> ev_service" where
  "set_worker tidx p s =
    (let thrdat = thread_data_list s ! tidx
     in s\<lparr>thread_data_list :=
            (thread_data_list s)[tidx := thrdat\<lparr>thrctx_p := (thrctx_p thrdat)\<lparr>cur_worker := p\<rparr>\<rparr>],
          ops := ops s @ [Set_worker tidx p]\<rparr>)"

text \<open>
  The header ev_service.hpp includes declares \<open>worker::work(thrctx, wlv)\<close> and
  \<open>worker::fetch_sworks()\<close>; the worker.hpp at hand has neither. \<open>do_work\<close> and the prior
  sweep take them as parameters: \<open>wkr_work p tidx wlv s\<close> runs the worker at position \<open>p\<close>
  under the context of thread \<open>tidx\<close> and returns the count with the new state, ends the
  program, or does not return (\<open>None\<close>); \<open>fetch_sworks\<close> returns a count and the worker
  it leaves.
\<close>

type_synonym work_fn = "nat \<Rightarrow> nat \<Rightarrow> work_level \<Rightarrow> ev_service \<Rightarrow> (error + size_t \<times> ev_service) option"

text \<open>
  \<open>do_work\<close>, lines 562 to 586. The scoped action of \<open>gsl::finally\<close> runs when the block
  of the claimed worker is left, that is after \<open>work\<close> has returned; \<open>do_work\<close> and \<open>work\<close>
  are \<open>noexcept\<close>, so there is no other way out of the block than a return or the end
  of the program.
\<close>

definition do_work :: "work_fn \<Rightarrow> nat \<Rightarrow> nat \<Rightarrow> work_level \<Rightarrow> ev_service \<Rightarrow> (error + size_t \<times> ev_service) option" where
  "do_work wkr_work wkridx tidx wlv s =
    (let works = 0 in
     if wkridx < length (workshop s) then
       (case exchange wkridx None memory_order_acq_rel s of
         (None, s) \<Rightarrow> Some (Inr (works, s))
       | (Some wkr, s) \<Rightarrow>
           (let s = set_worker tidx (Some wkr) s in
            case wkr_work wkr tidx wlv s of
              None \<Rightarrow> None
            | Some (Inl e) \<Rightarrow> Some (Inl e)
            | Some (Inr (n, s)) \<Rightarrow>
                (let s = set_worker tidx None s;
                     s = store wkridx (Some wkr) memory_order_release s
                 in Some (Inr (works + n, s)))))
     else Some (Inl Out_of_range))"

text \<open>
  The state \<open>do_work\<close> hands to \<open>work\<close> once it has read the pointer \<open>wkr\<close> from the
  slot, and the state the scoped action makes of the state \<open>work\<close> returns.
\<close>

definition claimed :: "nat \<Rightarrow> nat \<Rightarrow> nat \<Rightarrow> ev_service \<Rightarrow> ev_service" where
  "claimed wkridx tidx wkr s =
    s\<lparr>workshop := (workshop s)[wkridx := None],
      thread_data_list := (thread_data_list s)[tidx := (thread_data_list s ! tidx)
        \<lparr>thrctx_p := (thrctx_p (thread_data_list s ! tidx))\<lparr>cur_worker := Some wkr\<rparr>\<rparr>],
      ops := ops s @ [Exchange wkridx None memory_order_acq_rel, Set_worker tidx (Some wkr)]\<rparr>"

definition restored :: "nat \<Rightarrow> nat \<Rightarrow> nat \<Rightarrow> ev_service \<Rightarrow> ev_service" where
  "restored wkridx tidx wkr s =
    s\<lparr>workshop := (workshop s)[wkridx := Some wkr],
      thread_data_list := (thread_data_list s)[tidx := (thread_data_list s ! tidx)
        \<lparr>thrctx_p := (thrctx_p (thread_data_list s ! tidx))\<lparr>cur_worker := None\<rparr>\<rparr>],
      ops := ops s @ [Set_worker tidx None, Store wkridx (Some wkr) memory_order_release]\<rparr>"

text \<open>
  The prior sweep of \<open>trun\<close>, lines 539 to 546: \<open>pworks\<close> is a \<open>size_t\<close> and
  \<open>expected_pworks\<close> a \<open>long\<close>; the subtraction is done modulo \<open>2 ^ 64\<close>.
\<close>

fun prior_sweep ::
  "work_fn \<Rightarrow> (worker \<Rightarrow> long \<times> worker) \<Rightarrow> nat \<Rightarrow> nat list \<Rightarrow> size_t \<Rightarrow> long \<Rightarrow> ev_service
    \<Rightarrow> (error + size_t \<times> long \<times> ev_service) option" where
  "prior_sweep wkr_work fetch_sworks tidx [] pworks expected_pworks s =
    Some (Inr (pworks, expected_pworks, s))"
| "prior_sweep wkr_work fetch_sworks tidx (n # ns) pworks expected_pworks s =
    (case do_work wkr_work n tidx prior s of
      None \<Rightarrow> None
    | Some (Inl e) \<Rightarrow> Some (Inl e)
    | Some (Inr (works, s)) \<Rightarrow>
        (let pworks = pworks + works;
             expected_pworks = expected_pworks - pworks
         in if n < length (worker_list s) then
              (case fetch_sworks (worker_list s ! n) of
                (sworks, wkr) \<Rightarrow>
                  prior_sweep wkr_work fetch_sworks tidx ns pworks (expected_pworks - sworks)
                    (s\<lparr>worker_list := (worker_list s)[n := wkr]\<rparr>))
            else Some (Inl Out_of_range)))"

text \<open>
  Modelled from the spec: \<open>worker::work(thrctx, wlv)\<close>, for the examples. The spec gives
  \<open>work\<close> one behaviour for both levels, that of the \<open>work\<close> of worker.hpp: it "drains
  the queue to exhaustion, invoking \<open>handle\<close> on each event under \<open>thrctx\<close>,
  auto-releasing if requested", and "returns the count drained".
\<close>

definition work_at :: "nat \<Rightarrow> (event \<Rightarrow> thrctx \<Rightarrow> outcome) \<Rightarrow> work_fn" where
  "work_at fuel handle wkr tidx wlv s =
    (if wkr < length (worker_list s) \<and> tidx < length (thread_data_list s) then
       (case work fuel handle (thrctx_p (thread_data_list s ! tidx)) (worker_list s ! wkr) (ops s) of
         None \<Rightarrow> None
       | Some (Inl e) \<Rightarrow> Some (Inl e)
       | Some (Inr (n, w, h)) \<Rightarrow>
           Some (Inr (n, s\<lparr>worker_list := (worker_list s)[wkr := w], ops := h\<rparr>)))
     else Some (Inl Out_of_range))"

subsection \<open>Destruction\<close>

text \<open>
  \<open>~ev_service()\<close>, lines 140 to 191, in the build without \<open>ACTORX_DEBUG\<close>: the loop
  over the threads, \<open>workshop_.clear()\<close>, \<open>worker_list_.clear()\<close>, which destroys every
  worker, and the loop over the registered pools. The result is the state at the end of
  the destructor's body.
\<close>

definition clean_thread :: "thread_data \<Rightarrow> op list \<Rightarrow> thread_data \<times> op list" where
  "clean_thread thrdat h =
    (case pop_unique_all (tstart_que thrdat) h of
      (q1, h1) \<Rightarrow>
        (case pop_unique_all (texit_que thrdat) h1 of
          (q2, h2) \<Rightarrow> (thrdat\<lparr>tstart_que := q1, texit_que := q2\<rparr>, h2)))"

fun clean_threads :: "thread_data list \<Rightarrow> op list \<Rightarrow> thread_data list \<times> op list" where
  "clean_threads [] h = ([], h)"
| "clean_threads (thrdat # tds) h =
    (case clean_thread thrdat h of
      (thrdat', h') \<Rightarrow>
        (case clean_threads tds h' of (tds', h'') \<Rightarrow> (thrdat' # tds', h'')))"

fun clear_workers :: "worker list \<Rightarrow> op list \<Rightarrow> op list" where
  "clear_workers [] h = h"
| "clear_workers (w # ws) h = clear_workers ws (snd (worker_dtor w h))"

fun pop_unique_pools :: "nat list \<Rightarrow> op list \<Rightarrow> nat list \<times> op list" where
  "pop_unique_pools [] h = ([], h)"
| "pop_unique_pools (pool # q) h = pop_unique_pools q (h @ [Delete_pool pool])"

definition ev_service_dtor :: "ev_service \<Rightarrow> ev_service" where
  "ev_service_dtor s =
    (case clean_threads (thread_data_list s) (ops s) of
      (tds, h1) \<Rightarrow>
        (let h2 = clear_workers (worker_list s) h1 in
         case pop_unique_pools (local_pool_queue s) h2 of
           (pools, h3) \<Rightarrow>
             s\<lparr>thread_data_list := tds, workshop := [], worker_list := [],
               local_pool_queue := pools, ops := h3\<rparr>))"

subsection \<open>Reading the operations of a dispatch loop\<close>

text \<open>
  An operation \<open>threw\<close> when it is a call of \<open>handle\<close> whose outcome is an exception;
  operations are \<open>clean\<close> when none of them threw. A loop started at operations \<open>h\<close>
  \<open>ran_clean\<close> to \<open>h'\<close> when \<open>h'\<close> extends \<open>h\<close> by clean operations; it \<open>died_at_throw\<close>
  when its error is the contract violation whose operations extend \<open>h\<close> by clean
  operations followed, last, by a call that threw.
\<close>

definition threw :: "(event \<Rightarrow> thrctx \<Rightarrow> outcome) \<Rightarrow> op \<Rightarrow> bool" where
  "threw handle x = (case x of Handle ev thrctx \<Rightarrow> handle ev thrctx = Throws | _ \<Rightarrow> False)"

definition clean :: "(event \<Rightarrow> thrctx \<Rightarrow> outcome) \<Rightarrow> op list \<Rightarrow> bool" where
  "clean handle hs = list_all (\<lambda>x. \<not> threw handle x) hs"

definition ran_clean :: "(event \<Rightarrow> thrctx \<Rightarrow> outcome) \<Rightarrow> op list \<Rightarrow> op list \<Rightarrow> bool" where
  "ran_clean handle h h' = (take (length h) h' = h \<and> clean handle (drop (length h) h'))"

definition died_at_throw :: "(event \<Rightarrow> thrctx \<Rightarrow> outcome) \<Rightarrow> op list \<Rightarrow> error \<Rightarrow> bool" where
  "died_at_throw handle h e =
    (case e of
      Contract_violation hs \<Rightarrow>
        take (length h) hs = h \<and> length h < length hs \<and> threw handle (last hs)
        \<and> clean handle (butlast (drop (length h) hs))
    | _ \<Rightarrow> False)"

definition verdict :: "(event \<Rightarrow> thrctx \<Rightarrow> outcome) \<Rightarrow> op list \<Rightarrow> error + op list \<Rightarrow> bool" where
  "verdict handle h r =
    (case r of Inl e \<Rightarrow> died_at_throw handle h e | Inr h' \<Rightarrow> ran_clean handle h h')"

subsection \<open>Example inputs\<close>

text \<open>A handler table, a thread context and dispatchers that the examples below run on.\<close>

definition ex_handle :: "event \<Rightarrow> thrctx \<Rightarrow> outcome" where
  "ex_handle ev thrctx =
    (if ev = 1 then Returns True [3] else if ev = 2 then Returns False []
     else if ev = 9 then Throws else Returns True [])"

definition ex_thrctx :: thrctx where
  "ex_thrctx = \<lparr>thr_index = 0, thr_logger = Some ''null_logger'', cur_worker = Some 0\<rparr>"

definition ex_service :: ev_service where
  "ex_service = ev_service_ctor 0 2 None 3"

definition ex_busy :: ev_service where
  "ex_busy = ex_service\<lparr>worker_list := [\<lparr>index = 0, que = [1, 2]\<rparr>, worker_ctor 3 1, worker_ctor 3 2]\<rparr>"

definition ex_thrdat :: thread_data where
  "ex_thrdat = (thread_data_ctor 0 (Some ''null_logger''))
    \<lparr>tstart_que := [2, 9, 4], texit_que := [2, 9, 4], tsegv_que := [2, 9, 4]\<rparr>"

definition ex_pair :: ev_service where
  "ex_pair = ev_service_ctor 0 1 None 2"

definition ex_pending :: ev_service where
  "ex_pending = ex_pair
    \<lparr>worker_list := [\<lparr>index = 0, que = [4]\<rparr>, worker_ctor 2 1],
     thread_data_list := [(thread_data_ctor 0 (Some ''null_logger''))\<lparr>cnt := 1, cv := 1\<rparr>],
     ops := [Push 0 4, Synchronized_incr 0]\<rparr>"

text \<open>A thread that is not a dispatcher thread and has made no event yet, the pools
  its first events are made from, and the dispatcher \<open>ex_pending\<close> after that thread
  has registered a tstart, a texit and a tsegv handler.\<close>

definition ex_caller :: caller where
  "ex_caller = \<lparr>current = None, pool_array = (\<lambda>tp. None)\<rparr>"

definition ex_new_pool :: "event_type \<Rightarrow> nat" where
  "ex_new_pool tp =
    (case tp of post_event \<Rightarrow> 20 | spawn_event \<Rightarrow> 21 | tstart_event \<Rightarrow> 22
     | texit_event \<Rightarrow> 23 | tsegv_event \<Rightarrow> 24)"

definition ex_registered :: ev_service where
  "ex_registered = ex_pending
    \<lparr>local_pool_queue := [22, 23, 24],
     thread_data_list := [(thread_data_ctor 0 (Some ''null_logger''))
       \<lparr>cnt := 1, cv := 1, tstart_que := [5], texit_que := [6], tsegv_que := [7]\<rparr>]\<rparr>"

section \<open>Properties\<close>

subsection \<open>The worker's event loop\<close>

lemma Ensures_False: "Ensures False h = Inl (Contract_violation h)"
  by (simp add: Ensures_def)

lemma work_loop_returns:
  "work_loop fuel handle thrctx works w h = Some (Inr (n, w', h')) \<Longrightarrow>
   \<exists>evs. que w' = [] \<and> index w' = index w
     \<and> evs = que w @ concat (map (pushed_by handle thrctx) evs)
     \<and> list_all (\<lambda>e. handle e thrctx \<noteq> Throws) evs
     \<and> h' = h @ concat (map (dispatched handle thrctx) evs)
     \<and> n = works + of_nat (length evs)"
proof (induction fuel arbitrary: works w h)
  case 0
  then show ?case by simp
next
  case (Suc fuel)
  show ?case
  proof (cases "que w")
    case Nil
    with Suc.prems show ?thesis
      by (auto simp: que_pop_def intro!: exI [of _ "[]"])
  next
    case (Cons ev q)
    show ?thesis
    proof (cases "handle ev thrctx")
      case Throws
      with Cons Suc.prems show ?thesis
        by (simp add: que_pop_def Ensures_False Let_def)
    next
      case (Returns is_auto pushed)
      let ?h = "if is_auto then h @ [Handle ev thrctx, Release ev] else h @ [Handle ev thrctx]"
      from Suc.prems Cons Returns
      have run: "work_loop fuel handle thrctx (works + 1) (w\<lparr>que := q @ pushed\<rparr>) ?h
          = Some (Inr (n, w', h'))"
        by (simp add: que_pop_def Let_def split: if_splits)
      from Suc.IH [OF run] obtain evs where evs:
        "que w' = []" "index w' = index w"
        "evs = (q @ pushed) @ concat (map (pushed_by handle thrctx) evs)"
        "list_all (\<lambda>e. handle e thrctx \<noteq> Throws) evs"
        "h' = ?h @ concat (map (dispatched handle thrctx) evs)"
        "n = works + 1 + of_nat (length evs)"
        by auto
      have "ev # evs = que w @ concat (map (pushed_by handle thrctx) (ev # evs))"
        using evs(3) Cons Returns by (simp add: pushed_by_def)
      moreover have "h' = h @ concat (map (dispatched handle thrctx) (ev # evs))"
        using evs(5) Returns by (simp add: dispatched_def)
      moreover have "n = works + of_nat (length (ev # evs))"
        using evs(6) by simp
      moreover have "list_all (\<lambda>e. handle e thrctx \<noteq> Throws) (ev # evs)"
        using evs(4) Returns by simp
      ultimately show ?thesis
        using evs(1,2) by blast
    qed
  qed
qed

lemma work_loop_total:
  "list_all (returns_quietly handle thrctx) (que w) \<Longrightarrow> length (que w) < fuel \<Longrightarrow>
   work_loop fuel handle thrctx works w h =
     Some (Inr (works + of_nat (length (que w)), w\<lparr>que := []\<rparr>,
       h @ concat (map (dispatched handle thrctx) (que w))))"
proof (induction fuel arbitrary: works w h)
  case 0
  then show ?case by simp
next
  case (Suc fuel)
  show ?case
  proof (cases "que w")
    case Nil
    then show ?thesis by (simp add: que_pop_def)
  next
    case (Cons ev q)
    with Suc.prems obtain is_auto where out: "handle ev thrctx = Returns is_auto []"
      by (auto simp: returns_quietly_def split: outcome.splits)
    let ?h = "h @ dispatched handle thrctx ev"
    have d: "dispatched handle thrctx ev =
        (if is_auto then [Handle ev thrctx, Release ev] else [Handle ev thrctx])"
      using out by (simp add: dispatched_def)
    have "work_loop fuel handle thrctx (works + 1) (w\<lparr>que := q\<rparr>) ?h =
      Some (Inr (works + 1 + of_nat (length q), w\<lparr>que := q\<rparr>\<lparr>que := []\<rparr>,
        ?h @ concat (map (dispatched handle thrctx) q)))"
      using Suc.IH [of "w\<lparr>que := q\<rparr>" "works + 1" ?h] Suc.prems Cons by simp
    then show ?thesis
      using Cons out d by (cases is_auto) (simp_all add: que_pop_def add.assoc Let_def)
  qed
qed



text \<open>
  C2. For every worker and every thread context, \<open>work\<close> drains the queue until a pop
  returns null: whenever it returns, the queue is empty, \<open>handle\<close> was called once on
  each popped event in pop order (the events queued at the start, followed by those
  pushed while the loop ran), each event was released right after its call exactly when
  the call returned true, and the result is the number of popped events. When no
  handler throws or pushes, it does return, after as many rounds as there are events.
\<close>

theorem work_drains_queue:
  "(work fuel handle thrctx w h = Some (Inr (n, w', h')) \<longrightarrow>
      (\<exists>evs. que w' = []
         \<and> evs = que w @ concat (map (pushed_by handle thrctx) evs)
         \<and> h' = h @ concat (map (dispatched handle thrctx) evs)
         \<and> n = of_nat (length evs)))
   \<and> (list_all (returns_quietly handle thrctx) (que w) \<and> length (que w) < fuel \<longrightarrow>
        work fuel handle thrctx w h =
          Some (Inr (of_nat (length (que w)), w\<lparr>que := []\<rparr>,
            h @ concat (map (dispatched handle thrctx) (que w)))))"
proof (intro conjI impI)
  assume "work fuel handle thrctx w h = Some (Inr (n, w', h'))"
  then have "work_loop fuel handle thrctx 0 w h = Some (Inr (n, w', h'))"
    by (simp add: work_def)
  from work_loop_returns [OF this] show
    "\<exists>evs. que w' = []
       \<and> evs = que w @ concat (map (pushed_by handle thrctx) evs)
       \<and> h' = h @ concat (map (dispatched handle thrctx) evs)
       \<and> n = of_nat (length evs)"
    by auto
next
  assume "list_all (returns_quietly handle thrctx) (que w) \<and> length (que w) < fuel"
  then show "work fuel handle thrctx w h =
      Some (Inr (of_nat (length (que w)), w\<lparr>que := []\<rparr>,
        h @ concat (map (dispatched handle thrctx) (que w))))"
    using work_loop_total [of handle thrctx w fuel 0 h] by (simp add: work_def)
qed

theorem work_drains_queue_witness:
  "work 4 ex_handle ex_thrctx \<lparr>index = 0, que = [1, 2]\<rparr> [] =
     Some (Inr (3, \<lparr>index = 0, que = []\<rparr>,
       [Handle 1 ex_thrctx, Release 1, Handle 2 ex_thrctx, Handle 3 ex_thrctx, Release 3]))
   \<and> (\<exists>evs. evs = [1, 2] @ concat (map (pushed_by ex_handle ex_thrctx) evs)
        \<and> [Handle 1 ex_thrctx, Release 1, Handle 2 ex_thrctx, Handle 3 ex_thrctx, Release 3] =
            concat (map (dispatched ex_handle ex_thrctx) evs)
        \<and> (3 :: size_t) = of_nat (length evs))
   \<and> work 3 ex_handle ex_thrctx \<lparr>index = 0, que = [2, 4]\<rparr> [] =
       Some (Inr (2, \<lparr>index = 0, que = []\<rparr>,
         [Handle 2 ex_thrctx, Handle 4 ex_thrctx, Release 4]))"
proof -
  have run: "work 4 ex_handle ex_thrctx \<lparr>index = 0, que = [1, 2]\<rparr> [] =
     Some (Inr (3, \<lparr>index = 0, que = []\<rparr>,
       [Handle 1 ex_thrctx, Release 1, Handle 2 ex_thrctx, Handle 3 ex_thrctx, Release 3]))"
    by (simp add: work_def eval_nat_numeral que_pop_def ex_handle_def Let_def)
  have quiet: "list_all (returns_quietly ex_handle ex_thrctx) (que \<lparr>index = 0, que = [2, 4]\<rparr>)
      \<and> length (que \<lparr>index = 0, que = [2, 4]\<rparr>) < 3"
    by (simp add: returns_quietly_def ex_handle_def)
  from work_drains_queue [THEN conjunct1, rule_format, OF run] 
       work_drains_queue [THEN conjunct2, rule_format, OF quiet, of "[]"] run
  show ?thesis
    by (simp add: dispatched_def ex_handle_def)
qed

subsection \<open>Construction\<close>

lemma ctor_lists:
  "thread_data_list (ev_service_ctor u tn lg wn) =
     map (\<lambda>i. thread_data_ctor (of_nat i)
            (case lg of None \<Rightarrow> Some ''null_logger'' | Some l \<Rightarrow> Some l))
       [0..<unat (eff_threads tn)]"
  "worker_list (ev_service_ctor u tn lg wn) =
     map (\<lambda>i. worker_ctor (eff_workers tn wn) (of_nat i)) [0..<unat (eff_workers tn wn)]"
  "workshop (ev_service_ctor u tn lg wn) = map Some [0..<unat (eff_workers tn wn)]"
  "curr_sndidx (ev_service_ctor u tn lg wn) = 0"
  "ops (ev_service_ctor u tn lg wn) = []"
  by (simp_all add: ev_service_ctor_def Let_def eff_threads_def eff_workers_def)

lemma ctor_nums:
  "get_thread_num (ev_service_ctor u tn lg wn) = eff_threads tn"
  "get_worker_num (ev_service_ctor u tn lg wn) = eff_workers tn wn"
  by (simp_all add: get_thread_num_def get_worker_num_def ctor_lists)

lemma eff_threads_pos: "1 \<le> eff_threads tn" "1 \<le> unat (eff_threads tn)"
proof -
  have "eff_threads tn \<noteq> 0"
    by (simp add: eff_threads_def)
  then have "0 < unat (eff_threads tn)"
    by (simp add: unat_gt_0)
  then show "1 \<le> unat (eff_threads tn)"
    by simp
  then show "1 \<le> eff_threads tn"
    by (simp add: word_le_nat_alt)
qed

lemma if_less_max:
  fixes w t :: "'a :: linorder"
  shows "(if w < t then t else w) = max w t"
    and "(if w < t then t else w) = (if t \<le> w then w else t)"
  by (auto simp: max_def)

lemma eff_workers_ge: "eff_threads tn \<le> eff_workers tn wn"
  unfolding eff_workers_def if_less_max(1) by (rule max.cobounded2)

text \<open>
  C8. For every construction with requested \<open>(thread_num, logger, worker_num)\<close>, the
  worker count is the larger of the requested worker count and the effective thread
  count: \<open>get_worker_num\<close> returns the requested count when it is at least the effective
  thread count, and the effective thread count otherwise. That many workers are made,
  with the indices \<open>0\<close> to \<open>worker_num - 1\<close> in order and empty queues, and the
  workshop holds the pointer to each of them in the same order.
\<close>

theorem ctor_worker_num:
  "get_worker_num (ev_service_ctor u tn lg wn) =
     (if (if tn = 0 then 1 else tn) \<le> wn then wn else (if tn = 0 then 1 else tn))
   \<and> get_worker_num (ev_service_ctor u tn lg wn) = max wn (get_thread_num (ev_service_ctor u tn lg wn))
   \<and> length (worker_list (ev_service_ctor u tn lg wn)) = unat (get_worker_num (ev_service_ctor u tn lg wn))
   \<and> map index (worker_list (ev_service_ctor u tn lg wn)) =
       map of_nat [0..<unat (get_worker_num (ev_service_ctor u tn lg wn))]
   \<and> map que (worker_list (ev_service_ctor u tn lg wn)) =
       replicate (unat (get_worker_num (ev_service_ctor u tn lg wn))) []
   \<and> workshop (ev_service_ctor u tn lg wn) =
       map Some [0..<unat (get_worker_num (ev_service_ctor u tn lg wn))]"
proof -
  have a: "eff_workers tn wn =
      (if (if tn = 0 then 1 else tn) \<le> wn then wn else (if tn = 0 then 1 else tn))"
    unfolding eff_workers_def if_less_max(2) by (simp only: eff_threads_def)
  have b: "eff_workers tn wn = max wn (eff_threads tn)"
    unfolding eff_workers_def by (rule if_less_max(1))
  have q: "map que (worker_list (ev_service_ctor u tn lg wn)) = replicate (unat (eff_workers tn wn)) []"
    by (simp add: ctor_lists worker_ctor_def comp_def map_replicate_const)
  have i: "map index (worker_list (ev_service_ctor u tn lg wn)) = map of_nat [0..<unat (eff_workers tn wn)]"
    by (simp add: ctor_lists worker_ctor_def comp_def)
  have l: "length (worker_list (ev_service_ctor u tn lg wn)) = unat (eff_workers tn wn)"
    by (simp add: ctor_lists)
  show ?thesis
    unfolding ctor_nums using a b q i l ctor_lists(3) [of u tn lg wn] by simp
qed

text \<open>
  C10. A construction with \<open>thread_num = 0\<close> is normalised to one thread:
  \<open>get_thread_num\<close> returns 1, and the worker count is then the larger of the requested
  worker count and 1. For every construction \<open>get_thread_num\<close> is at least 1.
\<close>

theorem ctor_thread_num:
  "get_thread_num (ev_service_ctor u 0 lg wn) = 1
   \<and> get_worker_num (ev_service_ctor u 0 lg wn) = max wn 1
   \<and> 1 \<le> get_thread_num (ev_service_ctor u tn lg wn)
   \<and> 1 \<le> length (thread_data_list (ev_service_ctor u tn lg wn))
   \<and> get_thread_num (ev_service_ctor u tn lg wn) = (if tn = 0 then 1 else tn)"
proof -
  have a: "eff_threads 0 = 1"
    by (simp add: eff_threads_def)
  have b: "eff_workers 0 wn = max wn 1"
    unfolding eff_workers_def a by (rule if_less_max(1))
  have l: "length (thread_data_list (ev_service_ctor u tn lg wn)) = unat (eff_threads tn)"
    by (simp add: ctor_lists)
  have c: "eff_threads tn = (if tn = 0 then 1 else tn)"
    by (simp add: eff_threads_def)
  show ?thesis
    unfolding ctor_nums l using a b c eff_threads_pos [of tn] by simp
qed


subsection \<open>Stop\<close>

lemma update_take_drop:
  "k < length l \<Longrightarrow>
   (map f (take k l) @ drop k l)[k := f (l ! k)] = map f (take (Suc k) l) @ drop (Suc k) l"
  by (simp add: list_update_append take_Suc_conv_app_nth flip: Cons_nth_drop_Suc)

lemma nth_take_drop:
  "k < length l \<Longrightarrow> (map f (take k l) @ drop k l) ! k = l ! k"
  by (simp add: nth_append)

lemma fold_update_all:
  assumes step: "\<And>t s. g t s =
      s\<lparr>thread_data_list := (thread_data_list s)[t := f (thread_data_list s ! t)],
        ops := ops s @ [e t]\<rparr>"
  shows "k \<le> length (thread_data_list s) \<Longrightarrow>
   fold g [0..<k] s =
     s\<lparr>thread_data_list := map f (take k (thread_data_list s)) @ drop k (thread_data_list s),
        ops := ops s @ map e [0..<k]\<rparr>"
proof (induction k)
  case 0
  then show ?case by simp
next
  case (Suc k)
  then have k: "k < length (thread_data_list s)" by simp
  show ?case
    using Suc.IH k by (simp add: step nth_take_drop update_take_drop)
qed

lemma fold_store_stop:
  "fold (\<lambda>t. store_stop t True) [0..<length (thread_data_list s)] s =
     s\<lparr>thread_data_list := map (\<lambda>thrdat. thrdat\<lparr>stop_flag := True\<rparr>) (thread_data_list s),
        ops := ops s @ map (\<lambda>t. Store_stop t True) [0..<length (thread_data_list s)]\<rparr>"
  using fold_update_all [where g = "\<lambda>t. store_stop t True"
      and f = "\<lambda>thrdat. thrdat\<lparr>stop_flag := True\<rparr>"
      and e = "\<lambda>t. Store_stop t True" and k = "length (thread_data_list s)" and s = s]
  by (simp add: store_stop_def)

lemma fold_synchronized_incr:
  "fold synchronized_incr [0..<length (thread_data_list s)] s =
     s\<lparr>thread_data_list :=
          map (\<lambda>thrdat. thrdat\<lparr>cnt := cnt thrdat + 1, cv := cv thrdat + 1\<rparr>) (thread_data_list s),
        ops := ops s @ map Synchronized_incr [0..<length (thread_data_list s)]\<rparr>"
  using fold_update_all [where g = synchronized_incr
      and f = "\<lambda>thrdat. thrdat\<lparr>cnt := cnt thrdat + 1, cv := cv thrdat + 1\<rparr>"
      and e = Synchronized_incr and k = "length (thread_data_list s)" and s = s]
  by (simp add: synchronized_incr_def Let_def)

text \<open>
  C7. \<open>stop\<close> first stores true into the stop flag of every thread and only then, with
  all flags set, performs one synchronized increment on every thread's counter, which
  signals the thread's condition variable. After \<open>stop\<close> has returned, every stop flag
  is true and every counter is one higher than before.
\<close>

theorem stop_sets_flags_then_increments:
  "thread_data_list (stop s) =
     map (\<lambda>thrdat. thrdat\<lparr>stop_flag := True, cnt := cnt thrdat + 1, cv := cv thrdat + 1\<rparr>)
       (thread_data_list s)
   \<and> ops (stop s) =
       ops s @ map (\<lambda>t. Store_stop t True) [0..<length (thread_data_list s)]
         @ map Synchronized_incr [0..<length (thread_data_list s)]
   \<and> map is_stop (thread_data_list (stop s)) = replicate (length (thread_data_list s)) True
   \<and> map cnt (thread_data_list (stop s)) = map (\<lambda>thrdat. cnt thrdat + 1) (thread_data_list s)
   \<and> map cv (thread_data_list (stop s)) = map (\<lambda>thrdat. cv thrdat + 1) (thread_data_list s)
   \<and> worker_list (stop s) = worker_list s \<and> workshop (stop s) = workshop s"
proof -
  let ?n = "length (thread_data_list s)"
  let ?s1 = "fold (\<lambda>t. store_stop t True) [0..<?n] s"
  have s1: "?s1 = s\<lparr>thread_data_list := map (\<lambda>thrdat. thrdat\<lparr>stop_flag := True\<rparr>) (thread_data_list s),
      ops := ops s @ map (\<lambda>t. Store_stop t True) [0..<?n]\<rparr>"
    by (rule fold_store_stop)
  have "stop s = fold synchronized_incr [0..<length (thread_data_list ?s1)] ?s1"
    by (simp add: stop_def Let_def s1)
  also have "\<dots> = ?s1\<lparr>thread_data_list :=
      map (\<lambda>thrdat. thrdat\<lparr>cnt := cnt thrdat + 1, cv := cv thrdat + 1\<rparr>) (thread_data_list ?s1),
      ops := ops ?s1 @ map Synchronized_incr [0..<length (thread_data_list ?s1)]\<rparr>"
    by (rule fold_synchronized_incr)
  finally have st: "stop s = s\<lparr>thread_data_list :=
      map (\<lambda>thrdat. thrdat\<lparr>stop_flag := True, cnt := cnt thrdat + 1, cv := cv thrdat + 1\<rparr>)
        (thread_data_list s),
      ops := ops s @ map (\<lambda>t. Store_stop t True) [0..<?n] @ map Synchronized_incr [0..<?n]\<rparr>"
    by (simp add: s1 comp_def)
  show ?thesis
    unfolding st by (simp add: comp_def is_stop_def map_replicate_const)
qed


subsection \<open>Submission\<close>

lemma ex_service_eq:
  "ex_service =
    \<lparr>uid = 0, logger = Some ''null_logger'', local_pool_queue = [],
     thread_data_list =
       [thread_data_ctor 0 (Some ''null_logger''), thread_data_ctor 1 (Some ''null_logger'')],
     worker_list = [worker_ctor 3 0, worker_ctor 3 1, worker_ctor 3 2],
     workshop = [Some 0, Some 1, Some 2],
     curr_sndidx = 0, stopped_workers = 0, ops = []\<rparr>"
  by (simp add: ex_service_def ev_service_ctor_def Let_def upt_rec)

text \<open>
  C6. A submission through \<open>pri_async\<close> to worker \<open>w\<close> first pushes the event onto the
  queue of worker \<open>w\<close> and then notifies one thread, the prior thread of \<open>w\<close>, which is
  thread \<open>w mod thread_num\<close>: that thread's counter goes up by one and its condition
  variable is signalled, by one synchronized increment; no other thread and no other
  worker changes.
\<close>

theorem pri_async_pushes_then_notifies:
  assumes "target < length (worker_list s)" and "thread_data_list s \<noteq> []"
  shows "pri_async target ev s =
      Inr (s\<lparr>worker_list :=
              (worker_list s)[target := (worker_list s ! target)
                \<lparr>que := que (worker_list s ! target) @ [ev]\<rparr>],
            thread_data_list :=
              (thread_data_list s)[target mod length (thread_data_list s) :=
                (thread_data_list s ! (target mod length (thread_data_list s)))
                  \<lparr>cnt := cnt (thread_data_list s ! (target mod length (thread_data_list s))) + 1,
                   cv := cv (thread_data_list s ! (target mod length (thread_data_list s))) + 1\<rparr>],
            ops := ops s @ [Push target ev,
              Synchronized_incr (target mod length (thread_data_list s))]\<rparr>)
    \<and> target \<in> set (priors (target mod length (thread_data_list s)) s)
    \<and> target \<notin> set (minors (target mod length (thread_data_list s)) s)"
  using assms
  by (simp add: pri_async_def notify_thread_def synchronized_incr_def push_event_def
      que_push_def Let_def priors_def minors_def)


theorem pri_async_pushes_then_notifies_witness:
  "2 < length (worker_list ex_service) \<and> thread_data_list ex_service \<noteq> []
   \<and> (\<exists>s'. pri_async 2 7 ex_service = Inr s'
        \<and> map que (worker_list s') = [[], [], [7]]
        \<and> map cnt (thread_data_list s') = [1, 0]
        \<and> map cv (thread_data_list s') = [1, 0]
        \<and> ops s' = [Push 2 7, Synchronized_incr 0])
   \<and> priors 0 ex_service = [0, 2]"
proof -
  have a: "2 < length (worker_list ex_service)" and b: "thread_data_list ex_service \<noteq> []"
    by (simp_all add: ex_service_eq)
  have c: "priors 0 ex_service = [0, 2]"
    by (simp add: priors_def ex_service_eq upt_rec)
  have l: "length (thread_data_list ex_service) = 2"
    by (simp add: ex_service_eq)
  have m: "(2::nat) mod 2 = 0"
    by simp
  note run = pri_async_pushes_then_notifies [OF a b, of 7, unfolded l m]
  from run a b c show ?thesis
    by (simp add: ex_service_eq worker_ctor_def thread_data_ctor_def)
qed


subsection \<open>Claiming a worker\<close>

lemma do_work_null:
  "wkridx < length (workshop s) \<Longrightarrow> workshop s ! wkridx = None \<Longrightarrow>
   do_work wkr_work wkridx tidx wlv s =
     Some (Inr (0, s\<lparr>ops := ops s @ [Exchange wkridx None memory_order_acq_rel]\<rparr>))"
  by (simp add: do_work_def exchange_def list_update_same_conv)

lemma do_work_claim:
  "wkridx < length (workshop s) \<Longrightarrow> workshop s ! wkridx = Some wkr \<Longrightarrow>
   do_work wkr_work wkridx tidx wlv s =
     (case wkr_work wkr tidx wlv (claimed wkridx tidx wkr s) of
       None \<Rightarrow> None
     | Some (Inl e) \<Rightarrow> Some (Inl e)
     | Some (Inr (n, s')) \<Rightarrow> Some (Inr (n, restored wkridx tidx wkr s')))"
  by (simp add: do_work_def exchange_def set_worker_def store_def claimed_def restored_def Let_def
      split: option.splits sum.splits prod.splits)

lemma restored_sel:
  "ops (restored wkridx tidx wkr s) =
     ops s @ [Set_worker tidx None, Store wkridx (Some wkr) memory_order_release]"
  "workshop (restored wkridx tidx wkr s) = (workshop s)[wkridx := Some wkr]"
  "map (cur_worker \<circ> thrctx_p) (thread_data_list (restored wkridx tidx wkr s)) =
     (map (cur_worker \<circ> thrctx_p) (thread_data_list s))[tidx := None]"
  "worker_list (restored wkridx tidx wkr s) = worker_list s"
  by (simp_all add: restored_def map_update)

text \<open>
  C3. For every call \<open>do_work(wkridx, thrctx, wlv)\<close> on a slot of the workshop, the slot
  is read and set to null by one exchange with order \<open>acq_rel\<close>. If the value read was
  null, no work is run, 0 is returned and the slot is as it was. If it was the pointer to
  a worker, \<open>work\<close> runs in the state where the slot is null and the current worker of
  the thread context is that worker, and \<open>do_work\<close> returns exactly when \<open>work\<close> returns:
  on that way out the current worker has been reset to null and the worker pointer has
  been stored back into the slot by a store with order \<open>release\<close>, after \<open>work\<close> and
  whatever \<open>work\<close> did to the slot.
\<close>

theorem do_work_claims_and_restores:
  assumes "wkridx < length (workshop s)"
  shows "(workshop s ! wkridx = None \<longrightarrow>
      do_work wkr_work wkridx tidx wlv s =
        Some (Inr (0, s\<lparr>ops := ops s @ [Exchange wkridx None memory_order_acq_rel]\<rparr>)))
    \<and> (workshop s ! wkridx = Some wkr \<longrightarrow>
        (do_work wkr_work wkridx tidx wlv s = Some (Inr (n, s'')) \<longleftrightarrow>
          (\<exists>s'. wkr_work wkr tidx wlv (claimed wkridx tidx wkr s) = Some (Inr (n, s'))
             \<and> s'' = restored wkridx tidx wkr s')))
    \<and> workshop (claimed wkridx tidx wkr s) ! wkridx = None
    \<and> (wkridx < length (workshop s') \<longrightarrow> workshop (restored wkridx tidx wkr s') ! wkridx = Some wkr)
    \<and> (tidx < length (thread_data_list s') \<longrightarrow>
         cur_worker (thrctx_p (thread_data_list (restored wkridx tidx wkr s') ! tidx)) = None)
    \<and> ops (restored wkridx tidx wkr s') =
         ops s' @ [Set_worker tidx None, Store wkridx (Some wkr) memory_order_release]"
proof (intro conjI impI)
  assume "workshop s ! wkridx = None"
  with assms show "do_work wkr_work wkridx tidx wlv s =
      Some (Inr (0, s\<lparr>ops := ops s @ [Exchange wkridx None memory_order_acq_rel]\<rparr>))"
    by (rule do_work_null)
next
  assume "workshop s ! wkridx = Some wkr"
  from do_work_claim [OF assms this, of wkr_work tidx wlv]
  show "do_work wkr_work wkridx tidx wlv s = Some (Inr (n, s'')) \<longleftrightarrow>
      (\<exists>s'. wkr_work wkr tidx wlv (claimed wkridx tidx wkr s) = Some (Inr (n, s'))
         \<and> s'' = restored wkridx tidx wkr s')"
    by (auto split: option.splits sum.splits)
next
  show "workshop (claimed wkridx tidx wkr s) ! wkridx = None"
    using assms by (simp add: claimed_def)
next
  assume "wkridx < length (workshop s')"
  then show "workshop (restored wkridx tidx wkr s') ! wkridx = Some wkr"
    by (simp add: restored_def)
next
  assume "tidx < length (thread_data_list s')"
  then show "cur_worker (thrctx_p (thread_data_list (restored wkridx tidx wkr s') ! tidx)) = None"
    by (simp add: restored_def)
next
  show "ops (restored wkridx tidx wkr s') =
      ops s' @ [Set_worker tidx None, Store wkridx (Some wkr) memory_order_release]"
    by (simp add: restored_def)
qed


lemma ex_busy_sel:
  "workshop ex_busy = [Some 0, Some 1, Some 2]"
  "worker_list ex_busy = [\<lparr>index = 0, que = [1, 2]\<rparr>, worker_ctor 3 1, worker_ctor 3 2]"
  "thread_data_list ex_busy =
     [thread_data_ctor 0 (Some ''null_logger''), thread_data_ctor 1 (Some ''null_logger'')]"
  "ops ex_busy = []"
  by (simp_all add: ex_busy_def ex_service_eq)

theorem do_work_claims_and_restores_witness:
  "0 < length (workshop ex_busy) \<and> workshop ex_busy ! 0 = Some 0
   \<and> (\<exists>s''. do_work (work_at 4 ex_handle) 0 0 prior ex_busy = Some (Inr (3, s''))
        \<and> workshop s'' = [Some 0, Some 1, Some 2]
        \<and> map (cur_worker \<circ> thrctx_p) (thread_data_list s'') = [None, None]
        \<and> map que (worker_list s'') = [[], [], []]
        \<and> ops s'' =
            [Exchange 0 None memory_order_acq_rel, Set_worker 0 (Some 0),
             Handle 1 ex_thrctx, Release 1, Handle 2 ex_thrctx, Handle 3 ex_thrctx, Release 3,
             Set_worker 0 None, Store 0 (Some 0) memory_order_release])
   \<and> workshop (claimed 0 0 0 ex_busy) ! 0 = None
   \<and> do_work (work_at 4 ex_handle) 0 1 minor (claimed 0 0 0 ex_busy) =
        Some (Inr (0, (claimed 0 0 0 ex_busy)
          \<lparr>ops := ops (claimed 0 0 0 ex_busy) @ [Exchange 0 None memory_order_acq_rel]\<rparr>))"
proof -
  have a: "0 < length (workshop ex_busy)" and b: "workshop ex_busy ! 0 = Some 0"
    by (simp_all add: ex_busy_sel)
  have c: "0 < length (workshop (claimed 0 0 0 ex_busy))"
    and d: "workshop (claimed 0 0 0 ex_busy) ! 0 = None"
    by (simp_all add: claimed_def ex_busy_sel)
  have "\<exists>s'. work_at 4 ex_handle 0 0 prior (claimed 0 0 0 ex_busy) = Some (Inr (3, s'))
      \<and> workshop s' = [None, Some 1, Some 2]
      \<and> map (cur_worker \<circ> thrctx_p) (thread_data_list s') = [Some 0, None]
      \<and> map que (worker_list s') = [[], [], []]
      \<and> ops s' =
          [Exchange 0 None memory_order_acq_rel, Set_worker 0 (Some 0),
           Handle 1 ex_thrctx, Release 1, Handle 2 ex_thrctx, Handle 3 ex_thrctx, Release 3]"
    by (simp add: work_at_def claimed_def ex_busy_sel work_def eval_nat_numeral que_pop_def
        ex_handle_def ex_thrctx_def Let_def thread_data_ctor_def worker_ctor_def)
  then obtain s' where run: "work_at 4 ex_handle 0 0 prior (claimed 0 0 0 ex_busy) = Some (Inr (3, s'))"
    and s': "workshop s' = [None, Some 1, Some 2]"
      "map (cur_worker \<circ> thrctx_p) (thread_data_list s') = [Some 0, None]"
      "map que (worker_list s') = [[], [], []]"
      "ops s' =
          [Exchange 0 None memory_order_acq_rel, Set_worker 0 (Some 0),
           Handle 1 ex_thrctx, Release 1, Handle 2 ex_thrctx, Handle 3 ex_thrctx, Release 3]"
    by (elim exE conjE)
  note inst = do_work_claims_and_restores [OF a, of "work_at 4 ex_handle" 0 prior 0 3 "restored 0 0 0 s'"]
  from inst b run have "do_work (work_at 4 ex_handle) 0 0 prior ex_busy = Some (Inr (3, restored 0 0 0 s'))"
    by blast
  moreover from do_work_claims_and_restores [OF c, of "work_at 4 ex_handle" 1 minor] d
  have "do_work (work_at 4 ex_handle) 0 1 minor (claimed 0 0 0 ex_busy) =
        Some (Inr (0, (claimed 0 0 0 ex_busy)
          \<lparr>ops := ops (claimed 0 0 0 ex_busy) @ [Exchange 0 None memory_order_acq_rel]\<rparr>))"
    by blast
  ultimately show ?thesis
    using a b d s' by (simp add: restored_sel)
qed


subsection \<open>Exceptions from handlers\<close>

lemma ran_clean_refl: "ran_clean handle h h"
  by (simp add: ran_clean_def clean_def)

lemma ran_clean_step:
  assumes "clean handle a" and "ran_clean handle (h @ a) h'"
  shows "ran_clean handle h h'"
proof -
  from assms(2) have t: "take (length h + length a) h' = h @ a"
    and c: "clean handle (drop (length h + length a) h')"
    by (simp_all add: ran_clean_def)
  have "h' = (h @ a) @ drop (length h + length a) h'"
    using append_take_drop_id [of "length h + length a" h'] t by simp
  then obtain r where h': "h' = h @ a @ r" and r: "r = drop (length h + length a) h'"
    by simp
  from c r have "clean handle r" by simp
  with assms(1) show ?thesis
    unfolding h' by (simp add: ran_clean_def clean_def)
qed

lemma died_now: "threw handle x \<Longrightarrow> died_at_throw handle h (Contract_violation (h @ [x]))"
  by (simp add: died_at_throw_def clean_def)

lemma died_step:
  assumes "clean handle a" and "died_at_throw handle (h @ a) e"
  shows "died_at_throw handle h e"
proof (cases e)
  case (Contract_violation hs)
  with assms(2) have t: "take (length h + length a) hs = h @ a"
    and l: "length h + length a < length hs"
    and x: "threw handle (last hs)"
    and c: "clean handle (butlast (drop (length h + length a) hs))"
    by (simp_all add: died_at_throw_def)
  have "hs = (h @ a) @ drop (length h + length a) hs"
    using append_take_drop_id [of "length h + length a" hs] t by simp
  then obtain r where hs: "hs = h @ a @ r" and r: "r = drop (length h + length a) hs"
    by simp
  from l hs have "r \<noteq> []" by auto
  moreover from c r have "clean handle (butlast r)" by simp
  ultimately show ?thesis
    using assms(1) x unfolding Contract_violation hs
    by (simp add: died_at_throw_def clean_def butlast_append)
next
  case Out_of_range
  with assms(2) show ?thesis by (simp add: died_at_throw_def)
next
  case Division_by_zero
  with assms(2) show ?thesis by (simp add: died_at_throw_def)
qed

lemma verdict_step: "clean handle a \<Longrightarrow> verdict handle (h @ a) r \<Longrightarrow> verdict handle h r"
  by (auto simp: verdict_def split: sum.splits intro: ran_clean_step died_step)

lemma work_loop_verdict:
  "work_loop fuel handle thrctx works w h = Some r \<Longrightarrow>
   verdict handle h (map_sum id (\<lambda>(n, x, h'). h') r)"
proof (induction fuel arbitrary: works w h)
  case 0
  then show ?case by simp
next
  case (Suc fuel)
  show ?case
  proof (cases "que w")
    case Nil
    with Suc.prems show ?thesis
      by (auto simp: que_pop_def verdict_def ran_clean_refl)
  next
    case (Cons ev q)
    show ?thesis
    proof (cases "handle ev thrctx")
      case Throws
      with Cons Suc.prems have "r = Inl (Contract_violation (h @ [Handle ev thrctx]))"
        by (simp add: que_pop_def Ensures_False Let_def)
      with Throws show ?thesis
        by (simp add: verdict_def died_now threw_def)
    next
      case (Returns is_auto pushed)
      let ?a = "if is_auto then [Handle ev thrctx, Release ev] else [Handle ev thrctx]"
      from Suc.prems Cons Returns
      have "work_loop fuel handle thrctx (works + 1) (w\<lparr>que := q @ pushed\<rparr>) (h @ ?a) = Some r"
        by (simp add: que_pop_def Let_def split: if_splits)
      then have "verdict handle (h @ ?a) (map_sum id (\<lambda>(n, x, h'). h') r)"
        by (rule Suc.IH)
      moreover have "clean handle ?a"
        using Returns by (simp add: clean_def threw_def)
      ultimately show ?thesis
        by (rule verdict_step [rotated])
    qed
  qed
qed

lemma tstart_loop_verdict:
  "tstart_loop fuel handle thrdat h = Some r \<Longrightarrow>
   verdict handle h (map_sum id (\<lambda>(thrdat', h'). h') r)"
proof (induction fuel arbitrary: thrdat h)
  case 0
  then show ?case by simp
next
  case (Suc fuel)
  show ?case
  proof (cases "tstart_que thrdat")
    case Nil
    with Suc.prems show ?thesis
      by (auto simp: que_pop_def verdict_def ran_clean_refl)
  next
    case (Cons ev q)
    show ?thesis
    proof (cases "handle ev (thrctx_p thrdat)")
      case Throws
      with Cons Suc.prems have "r = Inl (Contract_violation (h @ [Handle ev (thrctx_p thrdat)]))"
        by (simp add: que_pop_def Ensures_False Let_def)
      with Throws show ?thesis
        by (simp add: verdict_def died_now threw_def)
    next
      case (Returns is_auto pushed)
      let ?a = "if is_auto then [Handle ev (thrctx_p thrdat), Release ev]
        else [Handle ev (thrctx_p thrdat)]"
      from Suc.prems Cons Returns
      have "tstart_loop fuel handle (thrdat\<lparr>tstart_que := q @ pushed\<rparr>) (h @ ?a) = Some r"
        by (simp add: que_pop_def Let_def split: if_splits)
      then have "verdict handle (h @ ?a) (map_sum id (\<lambda>(x, h'). h') r)"
        by (rule Suc.IH)
      moreover have "clean handle ?a"
        using Returns by (simp add: clean_def threw_def)
      ultimately show ?thesis
        by (rule verdict_step [rotated])
    qed
  qed
qed

lemma texit_loop_verdict:
  "texit_loop fuel handle thrdat h = Some r \<Longrightarrow>
   verdict handle h (map_sum id (\<lambda>(thrdat', h'). h') r)"
proof (induction fuel arbitrary: thrdat h)
  case 0
  then show ?case by simp
next
  case (Suc fuel)
  show ?case
  proof (cases "texit_que thrdat")
    case Nil
    with Suc.prems show ?thesis
      by (auto simp: que_pop_def verdict_def ran_clean_refl)
  next
    case (Cons ev q)
    show ?thesis
    proof (cases "handle ev (thrctx_p thrdat)")
      case Throws
      with Cons Suc.prems have "r = Inl (Contract_violation (h @ [Handle ev (thrctx_p thrdat)]))"
        by (simp add: que_pop_def Ensures_False Let_def)
      with Throws show ?thesis
        by (simp add: verdict_def died_now threw_def)
    next
      case (Returns is_auto pushed)
      let ?a = "if is_auto then [Handle ev (thrctx_p thrdat), Release ev]
        else [Handle ev (thrctx_p thrdat)]"
      from Suc.prems Cons Returns
      have "texit_loop fuel handle (thrdat\<lparr>texit_que := q @ pushed\<rparr>) (h @ ?a) = Some r"
        by (simp add: que_pop_def Let_def split: if_splits)
      then have "verdict handle (h @ ?a) (map_sum id (\<lambda>(x, h'). h') r)"
        by (rule Suc.IH)
      moreover have "clean handle ?a"
        using Returns by (simp add: clean_def threw_def)
      ultimately show ?thesis
        by (rule verdict_step [rotated])
    qed
  qed
qed

lemma tsegv_loop_verdict:
  "tsegv_loop fuel handle count thrdat h = Some r \<Longrightarrow>
   verdict handle h (map_sum id (\<lambda>(n, x, h'). h') r)"
proof (induction fuel arbitrary: count thrdat h)
  case 0
  then show ?case by simp
next
  case (Suc fuel)
  show ?case
  proof (cases "tsegv_que thrdat")
    case Nil
    with Suc.prems show ?thesis
      by (auto simp: que_pop_def verdict_def ran_clean_refl)
  next
    case (Cons ev q)
    show ?thesis
    proof (cases "handle ev (thrctx_p thrdat)")
      case Throws
      with Cons Suc.prems have "r = Inl (Contract_violation (h @ [Handle ev (thrctx_p thrdat)]))"
        by (simp add: que_pop_def Ensures_False Let_def)
      with Throws show ?thesis
        by (simp add: verdict_def died_now threw_def)
    next
      case (Returns is_auto pushed)
      let ?a = "if is_auto then [Handle ev (thrctx_p thrdat), Release ev]
        else [Handle ev (thrctx_p thrdat)]"
      from Suc.prems Cons Returns
      have "tsegv_loop fuel handle (count + 1) (thrdat\<lparr>tsegv_que := q @ pushed\<rparr>) (h @ ?a) = Some r"
        by (simp add: que_pop_def Let_def split: if_splits)
      then have "verdict handle (h @ ?a) (map_sum id (\<lambda>(n, x, h'). h') r)"
        by (rule Suc.IH)
      moreover have "clean handle ?a"
        using Returns by (simp add: clean_def threw_def)
      ultimately show ?thesis
        by (rule verdict_step [rotated])
    qed
  qed
qed


text \<open>
  C9. For every event whose \<open>handle\<close> throws, in \<open>worker::work\<close>, and for every tstart,
  texit or tsegv handler that throws, in the drains of \<open>trun\<close> and \<open>run\<close>: the \<open>catch\<close>
  takes the exception and runs the assertion on false, which ends the program. The
  round in which a handler throws ends the loop with the contract violation, the
  throwing call being the last operation: the event is not released, nothing more is
  popped and the loop does not return. Accordingly a loop that ends in an error died at
  a throwing call, and a loop that returns has handled no event that threw.
\<close>

theorem handler_exception_is_fatal:
  "(handle ev thrctx = Throws \<longrightarrow>
      work_loop (Suc fuel) handle thrctx works (w\<lparr>que := ev # q\<rparr>) h =
        Some (Inl (Contract_violation (h @ [Handle ev thrctx])))
      \<and> tstart_loop (Suc fuel) handle (thrdat\<lparr>thrctx_p := thrctx, tstart_que := ev # q\<rparr>) h =
        Some (Inl (Contract_violation (h @ [Handle ev thrctx])))
      \<and> texit_loop (Suc fuel) handle (thrdat\<lparr>thrctx_p := thrctx, texit_que := ev # q\<rparr>) h =
        Some (Inl (Contract_violation (h @ [Handle ev thrctx])))
      \<and> tsegv_loop (Suc fuel) handle count (thrdat\<lparr>thrctx_p := thrctx, tsegv_que := ev # q\<rparr>) h =
        Some (Inl (Contract_violation (h @ [Handle ev thrctx]))))
   \<and> (work fuel handle thrctx w h = Some (Inl e1) \<longrightarrow> died_at_throw handle h e1)
   \<and> (work fuel handle thrctx w h = Some (Inr (n1, w1, h1)) \<longrightarrow> ran_clean handle h h1)
   \<and> (tstart_loop fuel handle thrdat h = Some (Inl e2) \<longrightarrow> died_at_throw handle h e2)
   \<and> (tstart_loop fuel handle thrdat h = Some (Inr (thrdat2, h2)) \<longrightarrow> ran_clean handle h h2)
   \<and> (texit_loop fuel handle thrdat h = Some (Inl e3) \<longrightarrow> died_at_throw handle h e3)
   \<and> (texit_loop fuel handle thrdat h = Some (Inr (thrdat3, h3)) \<longrightarrow> ran_clean handle h h3)
   \<and> (tsegv_loop fuel handle count thrdat h = Some (Inl e4) \<longrightarrow> died_at_throw handle h e4)
   \<and> (tsegv_loop fuel handle count thrdat h = Some (Inr (n4, thrdat4, h4)) \<longrightarrow>
        ran_clean handle h h4)"
proof -
  have one: "handle ev thrctx = Throws \<Longrightarrow>
      work_loop (Suc fuel) handle thrctx works (w\<lparr>que := ev # q\<rparr>) h =
        Some (Inl (Contract_violation (h @ [Handle ev thrctx])))
      \<and> tstart_loop (Suc fuel) handle (thrdat\<lparr>thrctx_p := thrctx, tstart_que := ev # q\<rparr>) h =
        Some (Inl (Contract_violation (h @ [Handle ev thrctx])))
      \<and> texit_loop (Suc fuel) handle (thrdat\<lparr>thrctx_p := thrctx, texit_que := ev # q\<rparr>) h =
        Some (Inl (Contract_violation (h @ [Handle ev thrctx])))
      \<and> tsegv_loop (Suc fuel) handle count (thrdat\<lparr>thrctx_p := thrctx, tsegv_que := ev # q\<rparr>) h =
        Some (Inl (Contract_violation (h @ [Handle ev thrctx])))"
    by (simp add: que_pop_def Ensures_False Let_def)
  have w: "work fuel handle thrctx w h = Some r \<Longrightarrow>
      verdict handle h (map_sum id (\<lambda>(n, x, h'). h') r)" for r
    unfolding work_def by (rule work_loop_verdict)
  show ?thesis
    using one w [of "Inl e1"] w [of "Inr (n1, w1, h1)"]
      tstart_loop_verdict [of fuel handle thrdat h "Inl e2"]
      tstart_loop_verdict [of fuel handle thrdat h "Inr (thrdat2, h2)"]
      texit_loop_verdict [of fuel handle thrdat h "Inl e3"]
      texit_loop_verdict [of fuel handle thrdat h "Inr (thrdat3, h3)"]
      tsegv_loop_verdict [of fuel handle count thrdat h "Inl e4"]
      tsegv_loop_verdict [of fuel handle count thrdat h "Inr (n4, thrdat4, h4)"]
    by (simp add: verdict_def)
qed


theorem handler_exception_is_fatal_witness:
  "ex_handle 9 ex_thrctx = Throws
   \<and> work_loop 1 ex_handle ex_thrctx 1 \<lparr>index = 0, que = [9, 4]\<rparr> [Handle 2 ex_thrctx] =
       Some (Inl (Contract_violation [Handle 2 ex_thrctx, Handle 9 ex_thrctx]))
   \<and> work 5 ex_handle ex_thrctx \<lparr>index = 0, que = [2, 9, 4]\<rparr> [] =
       Some (Inl (Contract_violation [Handle 2 ex_thrctx, Handle 9 ex_thrctx]))
   \<and> died_at_throw ex_handle [] (Contract_violation [Handle 2 ex_thrctx, Handle 9 ex_thrctx])
   \<and> tstart_loop 5 ex_handle ex_thrdat [] =
       Some (Inl (Contract_violation [Handle 2 (thrctx_p ex_thrdat), Handle 9 (thrctx_p ex_thrdat)]))
   \<and> texit_loop 5 ex_handle ex_thrdat [] =
       Some (Inl (Contract_violation [Handle 2 (thrctx_p ex_thrdat), Handle 9 (thrctx_p ex_thrdat)]))
   \<and> tsegv_loop 5 ex_handle 0 ex_thrdat [] =
       Some (Inl (Contract_violation [Handle 2 (thrctx_p ex_thrdat), Handle 9 (thrctx_p ex_thrdat)]))
   \<and> died_at_throw ex_handle []
       (Contract_violation [Handle 2 (thrctx_p ex_thrdat), Handle 9 (thrctx_p ex_thrdat)])
   \<and> work 5 ex_handle ex_thrctx \<lparr>index = 0, que = [2, 4]\<rparr> [] =
       Some (Inr (2, \<lparr>index = 0, que = []\<rparr>, [Handle 2 ex_thrctx, Handle 4 ex_thrctx, Release 4]))
   \<and> ran_clean ex_handle [] [Handle 2 ex_thrctx, Handle 4 ex_thrctx, Release 4]"
proof -
  have t: "ex_handle 9 ex_thrctx = Throws"
    by (simp add: ex_handle_def)
  have w: "work 5 ex_handle ex_thrctx \<lparr>index = 0, que = [2, 9, 4]\<rparr> [] =
       Some (Inl (Contract_violation [Handle 2 ex_thrctx, Handle 9 ex_thrctx]))"
    by (simp add: work_def eval_nat_numeral que_pop_def ex_handle_def Let_def Ensures_def)
  have ts: "tstart_loop 5 ex_handle ex_thrdat [] =
       Some (Inl (Contract_violation [Handle 2 (thrctx_p ex_thrdat), Handle 9 (thrctx_p ex_thrdat)]))"
    by (simp add: ex_thrdat_def eval_nat_numeral que_pop_def ex_handle_def Let_def Ensures_def)
  have te: "texit_loop 5 ex_handle ex_thrdat [] =
       Some (Inl (Contract_violation [Handle 2 (thrctx_p ex_thrdat), Handle 9 (thrctx_p ex_thrdat)]))"
    by (simp add: ex_thrdat_def eval_nat_numeral que_pop_def ex_handle_def Let_def Ensures_def)
  have tg: "tsegv_loop 5 ex_handle 0 ex_thrdat [] =
       Some (Inl (Contract_violation [Handle 2 (thrctx_p ex_thrdat), Handle 9 (thrctx_p ex_thrdat)]))"
    by (simp add: ex_thrdat_def eval_nat_numeral que_pop_def ex_handle_def Let_def Ensures_def)
  have r: "work 5 ex_handle ex_thrctx \<lparr>index = 0, que = [2, 4]\<rparr> [] =
       Some (Inr (2, \<lparr>index = 0, que = []\<rparr>, [Handle 2 ex_thrctx, Handle 4 ex_thrctx, Release 4]))"
    by (simp add: work_def eval_nat_numeral que_pop_def ex_handle_def Let_def)
  note all = handler_exception_is_fatal [where handle = ex_handle and ev = 9 and thrctx = ex_thrctx
      and fuel = 0 and works = 1 and w = "\<lparr>index = 0, que = []\<rparr>" and q = "[4]"
      and h = "[Handle 2 ex_thrctx]"]
  from all t
  have one: "work_loop 1 ex_handle ex_thrctx 1 \<lparr>index = 0, que = [9, 4]\<rparr> [Handle 2 ex_thrctx] =
       Some (Inl (Contract_violation [Handle 2 ex_thrctx, Handle 9 ex_thrctx]))"
    by simp
  from handler_exception_is_fatal [where fuel = 5 and handle = ex_handle and thrctx = ex_thrctx
      and w = "\<lparr>index = 0, que = [2, 9, 4]\<rparr>" and h = "[]"
      and ?e1.0 = "Contract_violation [Handle 2 ex_thrctx, Handle 9 ex_thrctx]"] w
  have d1: "died_at_throw ex_handle [] (Contract_violation [Handle 2 ex_thrctx, Handle 9 ex_thrctx])"
    by blast
  from handler_exception_is_fatal [where fuel = 5 and handle = ex_handle and thrdat = ex_thrdat
      and h = "[]" and ?e2.0 = "Contract_violation [Handle 2 (thrctx_p ex_thrdat), Handle 9 (thrctx_p ex_thrdat)]"] ts
  have d2: "died_at_throw ex_handle []
       (Contract_violation [Handle 2 (thrctx_p ex_thrdat), Handle 9 (thrctx_p ex_thrdat)])"
    by blast
  from handler_exception_is_fatal [where fuel = 5 and handle = ex_handle and thrctx = ex_thrctx
      and w = "\<lparr>index = 0, que = [2, 4]\<rparr>" and h = "[]" and ?n1.0 = 2
      and ?w1.0 = "\<lparr>index = 0, que = []\<rparr>"
      and ?h1.0 = "[Handle 2 ex_thrctx, Handle 4 ex_thrctx, Release 4]"] r
  have d3: "ran_clean ex_handle [] [Handle 2 ex_thrctx, Handle 4 ex_thrctx, Release 4]"
    by blast
  from t one w d1 ts te tg d2 r d3 show ?thesis
    by (intro conjI)
qed


subsection \<open>Strand selection\<close>

lemma sel_next:
  fixes c :: size_t
  assumes c: "unat c < W" and W: "W < 2 ^ 64"
  shows "(if c + 1 \<ge> of_nat W then 0 else c + 1) = of_nat ((unat c + 1) mod W)"
    and "unat (of_nat ((unat c + 1) mod W) :: size_t) = (unat c + 1) mod W"
proof -
  have uW: "unat (of_nat W :: size_t) = W"
    using W by (simp add: unat_of_nat)
  have "unat c + unat (1 :: size_t) < 2 ^ LENGTH(64)"
    using c W by simp
  then have uc: "unat (c + 1) = unat c + 1"
    by (simp add: unat_add_lem [THEN iffD1])
  show "(if c + 1 \<ge> of_nat W then 0 else c + 1) = of_nat ((unat c + 1) mod W)"
  proof (cases "unat c + 1 = W")
    case True
    then show ?thesis
      using uW uc by (simp add: word_le_nat_alt)
  next
    case False
    with c have lt: "unat c + 1 < W" by simp
    then have "\<not> of_nat W \<le> c + 1"
      using uW uc by (simp add: word_le_nat_alt)
    moreover have "(of_nat (unat c + 1) :: size_t) = c + 1"
      by simp
    ultimately show ?thesis
      using lt by simp
  qed
  have "0 < W"
    using c by simp
  then have "(unat c + 1) mod W < W"
    by simp
  from this W have "(unat c + 1) mod W < 2 ^ 64"
    by (rule less_trans)
  then show "unat (of_nat ((unat c + 1) mod W) :: size_t) = (unat c + 1) mod W"
    by (simp add: unat_of_nat)
qed


lemma select_strand_index_eq:
  assumes "unat (curr_sndidx s) < length (worker_list s)" and "length (worker_list s) < 2 ^ 64"
  shows "select_strand_index s =
    (curr_sndidx s,
     s\<lparr>curr_sndidx := of_nat ((unat (curr_sndidx s) + 1) mod length (worker_list s)),
       ops := ops s @ [Load_sndidx memory_order_relaxed,
         Store_sndidx (of_nat ((unat (curr_sndidx s) + 1) mod length (worker_list s)))
           memory_order_relaxed]\<rparr>)"
  using sel_next(1) [OF assms]
  by (simp add: select_strand_index_def load_sndidx_def store_sndidx_def get_worker_num_def Let_def)

lemma select_strand_indices_eq:
  "unat (curr_sndidx s) < length (worker_list s) \<Longrightarrow> length (worker_list s) < 2 ^ 64 \<Longrightarrow>
   map unat (fst (select_strand_indices n s)) =
     map (\<lambda>i. (unat (curr_sndidx s) + i) mod length (worker_list s)) [0..<n]"
proof (induction n arbitrary: s)
  case 0
  then show ?case by simp
next
  case (Suc n)
  let ?W = "length (worker_list s)"
  let ?u = "unat (curr_sndidx s)"
  let ?s1 = "s\<lparr>curr_sndidx := of_nat ((?u + 1) mod ?W),
    ops := ops s @ [Load_sndidx memory_order_relaxed,
      Store_sndidx (of_nat ((?u + 1) mod ?W)) memory_order_relaxed]\<rparr>"
  have step: "select_strand_index s = (curr_sndidx s, ?s1)"
    using Suc.prems by (rule select_strand_index_eq)
  have u1: "unat (curr_sndidx ?s1) = (?u + 1) mod ?W"
    using sel_next(2) [OF Suc.prems] by simp
  have "0 < ?W"
    using Suc.prems(1) by (cases "worker_list s") simp_all
  then have "unat (curr_sndidx ?s1) < length (worker_list ?s1)"
    unfolding u1 by simp
  moreover have "length (worker_list ?s1) < 2 ^ 64"
    using Suc.prems(2) by simp
  ultimately have "map unat (fst (select_strand_indices n ?s1)) =
      map (\<lambda>i. (unat (curr_sndidx ?s1) + i) mod length (worker_list ?s1)) [0..<n]"
    by (rule Suc.IH)
  then have IH: "map unat (fst (select_strand_indices n ?s1)) =
      map (\<lambda>i. (?u + Suc i) mod ?W) [0..<n]"
    unfolding u1 by (simp add: mod_add_left_eq)
  have "map (\<lambda>i. (?u + i) mod ?W) [0..<Suc n] =
      ?u # map (\<lambda>i. (?u + Suc i) mod ?W) [0..<n]"
    using Suc.prems(1) by (simp add: upt_conv_Cons map_Suc_upt [symmetric] del: upt_Suc)
  then show ?case
    using step IH by (simp add: split_beta del: upt_Suc)
qed

lemma sel_step_inv:
  assumes "unat (curr_sndidx s) < length (worker_list s)" and "length (worker_list s) < 2 ^ 64"
    and "sel_inv s c" and "sel_step c s = (c', s')"
  shows "unat (curr_sndidx s') < length (worker_list s')" and "sel_inv s' c'"
    and "worker_list s' = worker_list s"
proof -
  note n = sel_next [OF assms(1,2)]
  show "worker_list s' = worker_list s"
    using assms(4)
    by (auto simp: sel_step_def load_sndidx_def store_sndidx_def Let_def split: sel_pc.splits)
  have "0 < length (worker_list s)"
    using assms(1) by (cases "worker_list s") simp_all
  then have m: "(unat (curr_sndidx s) + 1) mod length (worker_list s) < length (worker_list s)"
    by simp
  show "unat (curr_sndidx s') < length (worker_list s')"
    using assms(1,3,4)
    by (auto simp: sel_step_def load_sndidx_def store_sndidx_def sel_inv_def Let_def
        split: sel_pc.splits)
  show "sel_inv s' c'"
  proof (cases "pc c")
    case At_load
    then have "sel_step c s = (c\<lparr>pc := At_store,
        sndidx := of_nat ((unat (curr_sndidx s) + 1) mod length (worker_list s)),
        result := curr_sndidx s\<rparr>, s\<lparr>ops := ops s @ [Load_sndidx memory_order_relaxed]\<rparr>)"
      using n(1) by (simp add: sel_step_def load_sndidx_def Let_def get_worker_num_def)
    with assms(4) have c': "c' = c\<lparr>pc := At_store,
        sndidx := of_nat ((unat (curr_sndidx s) + 1) mod length (worker_list s)),
        result := curr_sndidx s\<rparr>"
      and s': "s' = s\<lparr>ops := ops s @ [Load_sndidx memory_order_relaxed]\<rparr>"
      by auto
    show ?thesis
      unfolding c' s' using assms(1) m n(2) by (simp add: sel_inv_def)
  next
    case At_store
    with assms(3,4) show ?thesis
      by (auto simp: sel_step_def store_sndidx_def sel_inv_def)
  next
    case Returned
    with assms(3,4) show ?thesis
      by (auto simp: sel_step_def sel_inv_def)
  qed
qed

lemma sel_inv_cong: "worker_list s' = worker_list s \<Longrightarrow> sel_inv s' c = sel_inv s c"
  by (simp add: sel_inv_def)

lemma run_schedule_inv:
  "sel_ok (calls, s) \<Longrightarrow> length (worker_list s) < 2 ^ 64 \<Longrightarrow>
   sel_ok (run_schedule sched (calls, s))
   \<and> worker_list (snd (run_schedule sched (calls, s))) = worker_list s
   \<and> length (fst (run_schedule sched (calls, s))) = length calls"
proof (induction sched arbitrary: calls s)
  case Nil
  then show ?case by simp
next
  case (Cons t ts)
  show ?case
  proof (cases "t < length calls")
    case False
    with Cons show ?thesis by simp
  next
    case True
    obtain c' s' where st: "sel_step (calls ! t) s = (c', s')"
      by (cases "sel_step (calls ! t) s")
    from Cons.prems(1) have cur: "unat (curr_sndidx s) < length (worker_list s)"
      and all: "list_all (sel_inv s) calls"
      by (simp_all add: sel_ok_def)
    from all True have "sel_inv s (calls ! t)"
      by (simp add: list_all_length)
    note i = sel_step_inv [OF cur Cons.prems(2) this st]
    have "list_all (sel_inv s') (calls[t := c'])"
      using all i(2) True
      by (auto simp: list_all_length nth_list_update sel_inv_cong [OF i(3)])
    with i(1) have ok: "sel_ok (calls[t := c'], s')"
      by (simp add: sel_ok_def)
    have W: "length (worker_list s') < 2 ^ 64"
      using Cons.prems(2) i(3) by simp
    from Cons.IH [OF ok W] show ?thesis
      using True st i(3) by simp
  qed
qed


lemma ex_pair_eq:
  "ex_pair =
    \<lparr>uid = 0, logger = Some ''null_logger'', local_pool_queue = [],
     thread_data_list = [thread_data_ctor 0 (Some ''null_logger'')],
     worker_list = [worker_ctor 2 0, worker_ctor 2 1],
     workshop = [Some 0, Some 1],
     curr_sndidx = 0, stopped_workers = 0, ops = []\<rparr>"
  by (simp add: ex_pair_def ev_service_ctor_def Let_def upt_rec)

lemma sel_begin_inv: "list_all (sel_inv s) (replicate k sel_begin)"
  by (simp add: list_all_length sel_inv_def sel_begin_def)

text \<open>A dispatcher satisfies the two conditions of the theorem below when it has been
  constructed.\<close>

lemma ctor_sel_premises:
  "unat (curr_sndidx (ev_service_ctor u tn lg wn)) < length (worker_list (ev_service_ctor u tn lg wn))"
  "length (worker_list (ev_service_ctor u tn lg wn)) < 2 ^ 64"
proof -
  have "unat (eff_threads tn) \<le> unat (eff_workers tn wn)"
    using eff_workers_ge [of tn wn] by (simp add: word_le_nat_alt)
  with eff_threads_pos(2) [of tn] have "0 < unat (eff_workers tn wn)"
    by simp
  then show "unat (curr_sndidx (ev_service_ctor u tn lg wn))
      < length (worker_list (ev_service_ctor u tn lg wn))"
    by (simp add: ctor_lists)
  have "unat (eff_workers tn wn) < 2 ^ LENGTH(64)"
    by (rule unsigned_less)
  then show "length (worker_list (ev_service_ctor u tn lg wn)) < 2 ^ 64"
    by (simp add: ctor_lists)
qed


lemma pushes_append: "pushes (a @ b) = pushes a @ pushes b"
  by (simp add: pushes_def)

lemma pri_async_ok:
  assumes "target < length (worker_list s)" and "thread_data_list s \<noteq> []"
  shows "\<exists>s'. pri_async target ev s = Inr s'
    \<and> ops s' = ops s @ [Push target ev, Synchronized_incr (target mod length (thread_data_list s))]
    \<and> curr_sndidx s' = curr_sndidx s \<and> uid s' = uid s
    \<and> length (worker_list s') = length (worker_list s)
    \<and> length (thread_data_list s') = length (thread_data_list s)"
  using assms
  by (simp add: pri_async_def notify_thread_def synchronized_incr_def Let_def)

lemma make_event_ok:
  assumes "current c = None \<Longrightarrow> unat (uid s) < mx"
  shows "\<exists>c' s'. make_event mx np tp obj c s = Inr (obj, c', s')
    \<and> current c' = current c \<and> ops s' = ops s \<and> curr_sndidx s' = curr_sndidx s
    \<and> uid s' = uid s \<and> worker_list s' = worker_list s
    \<and> thread_data_list s' = thread_data_list s"
  using assms by (auto simp: make_event_def Expects_def split: option.splits)

lemma submit_step:
  assumes a: "unat (curr_sndidx s) < length (worker_list s)"
    and b: "length (worker_list s) < 2 ^ 64"
    and t: "thread_data_list s \<noteq> []"
    and r: "current c = None \<Longrightarrow> unat (uid s) < mx"
  shows "\<exists>c' s'. submit mx np sub (c, s) = Inr (c', s')
    \<and> ops s' = ops s @
        [Load_sndidx memory_order_relaxed,
         Store_sndidx (of_nat ((unat (curr_sndidx s) + 1) mod length (worker_list s)))
           memory_order_relaxed,
         Push (unat (curr_sndidx s)) (event_of sub),
         Synchronized_incr (unat (curr_sndidx s) mod length (thread_data_list s))]
    \<and> curr_sndidx s' = of_nat ((unat (curr_sndidx s) + 1) mod length (worker_list s))
    \<and> uid s' = uid s \<and> current c' = current c
    \<and> length (worker_list s') = length (worker_list s)
    \<and> length (thread_data_list s') = length (thread_data_list s)"
proof -
  let ?n = "of_nat ((unat (curr_sndidx s) + 1) mod length (worker_list s)) :: size_t"
  let ?s1 = "s\<lparr>curr_sndidx := ?n,
    ops := ops s @ [Load_sndidx memory_order_relaxed, Store_sndidx ?n memory_order_relaxed]\<rparr>"
  have sel: "select_strand_index s = (curr_sndidx s, ?s1)"
    using a b by (rule select_strand_index_eq)
  have made: "\<exists>c' s2. make_event mx np tp obj c ?s1 = Inr (obj, c', s2)
      \<and> current c' = current c \<and> ops s2 = ops ?s1 \<and> curr_sndidx s2 = curr_sndidx ?s1
      \<and> uid s2 = uid ?s1 \<and> worker_list s2 = worker_list ?s1
      \<and> thread_data_list s2 = thread_data_list ?s1" for tp obj
    using r by (intro make_event_ok) simp
  have pushed: "\<exists>s'. pri_async (unat (curr_sndidx s)) ev s2 = Inr s'
      \<and> ops s' = ops s2 @ [Push (unat (curr_sndidx s)) ev,
          Synchronized_incr (unat (curr_sndidx s) mod length (thread_data_list s2))]
      \<and> curr_sndidx s' = curr_sndidx s2 \<and> uid s' = uid s2
      \<and> length (worker_list s') = length (worker_list s2)
      \<and> length (thread_data_list s') = length (thread_data_list s2)"
    if "worker_list s2 = worker_list s" and "thread_data_list s2 = thread_data_list s" for ev s2
    using a t that by (intro pri_async_ok) simp_all
  show ?thesis
  proof (cases sub)
    case (Async ev)
    from pushed [of ?s1 ev] obtain s' where
      "pri_async (unat (curr_sndidx s)) ev ?s1 = Inr s'"
      "ops s' = ops ?s1 @ [Push (unat (curr_sndidx s)) ev,
          Synchronized_incr (unat (curr_sndidx s) mod length (thread_data_list ?s1))]"
      "curr_sndidx s' = curr_sndidx ?s1" "uid s' = uid ?s1"
      "length (worker_list s') = length (worker_list ?s1)"
      "length (thread_data_list s') = length (thread_data_list ?s1)"
      by auto
    then show ?thesis
      using Async sel by (simp add: submit_def async_def event_of_def)
  next
    case (Post obj)
    from made [of post_event obj] obtain c' s2 where m:
      "make_event mx np post_event obj c ?s1 = Inr (obj, c', s2)"
      "current c' = current c" "ops s2 = ops ?s1" "curr_sndidx s2 = curr_sndidx ?s1"
      "uid s2 = uid ?s1" "worker_list s2 = worker_list ?s1"
      "thread_data_list s2 = thread_data_list ?s1"
      by auto
    from m(6,7) have "worker_list s2 = worker_list s" "thread_data_list s2 = thread_data_list s"
      by simp_all
    from pushed [OF this, of obj] obtain s' where
      "pri_async (unat (curr_sndidx s)) obj s2 = Inr s'"
      "ops s' = ops s2 @ [Push (unat (curr_sndidx s)) obj,
          Synchronized_incr (unat (curr_sndidx s) mod length (thread_data_list s2))]"
      "curr_sndidx s' = curr_sndidx s2" "uid s' = uid s2"
      "length (worker_list s') = length (worker_list s2)"
      "length (thread_data_list s') = length (thread_data_list s2)"
      by auto
    then show ?thesis
      using Post sel m by (simp add: submit_def post_def pri_post_def event_of_def)
  next
    case (Spawn obj)
    from made [of spawn_event obj] obtain c' s2 where m:
      "make_event mx np spawn_event obj c ?s1 = Inr (obj, c', s2)"
      "current c' = current c" "ops s2 = ops ?s1" "curr_sndidx s2 = curr_sndidx ?s1"
      "uid s2 = uid ?s1" "worker_list s2 = worker_list ?s1"
      "thread_data_list s2 = thread_data_list ?s1"
      by auto
    from m(6,7) have "worker_list s2 = worker_list s" "thread_data_list s2 = thread_data_list s"
      by simp_all
    from pushed [OF this, of obj] obtain s' where
      "pri_async (unat (curr_sndidx s)) obj s2 = Inr s'"
      "ops s' = ops s2 @ [Push (unat (curr_sndidx s)) obj,
          Synchronized_incr (unat (curr_sndidx s) mod length (thread_data_list s2))]"
      "curr_sndidx s' = curr_sndidx s2" "uid s' = uid s2"
      "length (worker_list s') = length (worker_list s2)"
      "length (thread_data_list s') = length (thread_data_list s2)"
      by auto
    then show ?thesis
      using Spawn sel m by (simp add: submit_def spawn_def pri_spawn_def event_of_def)
  qed
qed

lemma submit_all_targets:
  assumes "unat (curr_sndidx s) < length (worker_list s)"
    and "length (worker_list s) < 2 ^ 64"
    and "thread_data_list s \<noteq> []"
    and "current c = None \<Longrightarrow> unat (uid s) < mx"
  shows "\<exists>c' s' new. submit_all mx np subs (c, s) = Inr (c', s')
    \<and> ops s' = ops s @ new
    \<and> map fst (pushes new) =
        map (\<lambda>i. (unat (curr_sndidx s) + i) mod length (worker_list s)) [0..<length subs]
    \<and> map snd (pushes new) = map event_of subs"
  using assms
proof (induction subs arbitrary: c s)
  case Nil
  then show ?case by (simp add: pushes_def)
next
  case (Cons sub subs)
  let ?W = "length (worker_list s)"
  let ?u = "unat (curr_sndidx s)"
  let ?step = "[Load_sndidx memory_order_relaxed,
      Store_sndidx (of_nat ((?u + 1) mod ?W)) memory_order_relaxed,
      Push ?u (event_of sub), Synchronized_incr (?u mod length (thread_data_list s))]"
  from submit_step [OF Cons.prems(1,2,3), of c mx np sub] Cons.prems(4)
  obtain c1 s1 where st: "submit mx np sub (c, s) = Inr (c1, s1)"
    and o1: "ops s1 = ops s @ ?step"
    and n1: "curr_sndidx s1 = of_nat ((?u + 1) mod ?W)"
    and u1: "uid s1 = uid s" and cur1: "current c1 = current c"
    and w1: "length (worker_list s1) = ?W"
    and t1: "length (thread_data_list s1) = length (thread_data_list s)"
    by auto
  have un: "unat (curr_sndidx s1) = (?u + 1) mod ?W"
    unfolding n1 using sel_next(2) [OF Cons.prems(1,2)] by simp
  have "0 < ?W"
    using Cons.prems(1) by (cases "worker_list s") simp_all
  then have p1: "unat (curr_sndidx s1) < length (worker_list s1)"
    unfolding un w1 by simp
  have p2: "length (worker_list s1) < 2 ^ 64"
    using Cons.prems(2) w1 by simp
  have p3: "thread_data_list s1 \<noteq> []"
    using Cons.prems(3) t1 by (cases "thread_data_list s1") simp_all
  have p4: "current c1 = None \<Longrightarrow> unat (uid s1) < mx"
    using Cons.prems(4) u1 cur1 by simp
  from Cons.IH [OF p1 p2 p3 p4] obtain c' s' new where
    all: "submit_all mx np subs (c1, s1) = Inr (c', s')"
    and o': "ops s' = ops s1 @ new"
    and f: "map fst (pushes new) =
      map (\<lambda>i. (unat (curr_sndidx s1) + i) mod length (worker_list s1)) [0..<length subs]"
    and e: "map snd (pushes new) = map event_of subs"
    by blast
  have f': "map fst (pushes new) = map (\<lambda>i. (?u + Suc i) mod ?W) [0..<length subs]"
    using f unfolding un w1 by (simp add: mod_add_left_eq)
  have ps: "pushes (?step @ new) = (?u, event_of sub) # pushes new"
    by (simp add: pushes_def)
  have upt: "map (\<lambda>i. (?u + i) mod ?W) [0..<Suc (length subs)] =
      ?u # map (\<lambda>i. (?u + Suc i) mod ?W) [0..<length subs]"
    using Cons.prems(1) by (simp add: upt_conv_Cons map_Suc_upt [symmetric] del: upt_Suc)
  have "submit_all mx np (sub # subs) (c, s) = Inr (c', s')"
    using st all by simp
  moreover have "ops s' = ops s @ (?step @ new)"
    using o1 o' by simp
  moreover have "map fst (pushes (?step @ new)) =
      map (\<lambda>i. (?u + i) mod ?W) [0..<length (sub # subs)]"
    unfolding ps using f' upt by simp
  moreover have "map snd (pushes (?step @ new)) = map event_of (sub # subs)"
    unfolding ps using e by simp
  ultimately show ?case
    by blast
qed

text \<open>
  C1, as the code has it. \<open>select_strand_index\<close> reads \<open>curr_sndidx_\<close> with a relaxed
  load and writes the next value back with a separate relaxed store. A call that runs
  from its load to its store with no other call in between returns the current counter
  value, which lies in \<open>[0, worker_num)\<close>, and advances the counter by one, wrapping to
  0 at \<open>worker_num\<close>; so calls made one after the other return
  \<open>c, c + 1, \<dots>, worker_num - 1, 0, \<dots>\<close> cyclically from the counter value \<open>c\<close>, and two
  steps of the same call in a row are the function. Submissions by \<open>post\<close>, \<open>spawn\<close> and
  \<open>async\<close> made one after the other all succeed, and the event of the \<open>i\<close>-th is pushed
  onto the worker \<open>(c + i) mod worker_num\<close>: the strands \<open>0, 1, \<dots>, worker_num - 1, 0, \<dots>\<close>
  from a new dispatcher. Whatever the order in which the steps of several calls are
  taken, every returned index and the counter stay in \<open>[0, worker_num)\<close>.
\<close>

theorem select_strand_index_round_robin:
  assumes "unat (curr_sndidx s) < length (worker_list s)" and "length (worker_list s) < 2 ^ 64"
  shows "select_strand_index s =
      (curr_sndidx s,
       s\<lparr>curr_sndidx := of_nat ((unat (curr_sndidx s) + 1) mod length (worker_list s)),
         ops := ops s @ [Load_sndidx memory_order_relaxed,
           Store_sndidx (of_nat ((unat (curr_sndidx s) + 1) mod length (worker_list s)))
             memory_order_relaxed]\<rparr>)
    \<and> unat (curr_sndidx (snd (select_strand_index s))) =
        (unat (curr_sndidx s) + 1) mod length (worker_list s)
    \<and> map unat (fst (select_strand_indices n s)) =
        map (\<lambda>i. (unat (curr_sndidx s) + i) mod length (worker_list s)) [0..<n]
    \<and> (case sel_step sel_begin s of
         (c, s1) \<Rightarrow>
           (case sel_step c s1 of
             (c', s2) \<Rightarrow> pc c' = Returned \<and> (result c', s2) = select_strand_index s))
    \<and> (case run_schedule sched (replicate k sel_begin, s) of
         (calls, s') \<Rightarrow>
           unat (curr_sndidx s') < length (worker_list s)
           \<and> list_all (\<lambda>c. pc c = At_load \<or> unat (result c) < length (worker_list s)) calls)
    \<and> (thread_data_list s \<noteq> [] \<and> (current cl = None \<longrightarrow> unat (uid s) < max_ev_service) \<longrightarrow>
         (\<exists>cl' s' new. submit_all max_ev_service new_pool subs (cl, s) = Inr (cl', s')
            \<and> ops s' = ops s @ new
            \<and> map fst (pushes new) =
                map (\<lambda>i. (unat (curr_sndidx s) + i) mod length (worker_list s)) [0..<length subs]
            \<and> map snd (pushes new) = map event_of subs))"
proof -
  note eq = select_strand_index_eq [OF assms]
  have a: "unat (curr_sndidx (snd (select_strand_index s))) =
        (unat (curr_sndidx s) + 1) mod length (worker_list s)"
    unfolding eq using sel_next(2) [OF assms] by simp
  have b: "map unat (fst (select_strand_indices n s)) =
        map (\<lambda>i. (unat (curr_sndidx s) + i) mod length (worker_list s)) [0..<n]"
    using assms by (rule select_strand_indices_eq)
  have c: "(case sel_step sel_begin s of
         (c, s1) \<Rightarrow>
           (case sel_step c s1 of
             (c', s2) \<Rightarrow> pc c' = Returned \<and> (result c', s2) = select_strand_index s))"
    by (simp add: sel_step_def sel_begin_def select_strand_index_def load_sndidx_def
        store_sndidx_def get_worker_num_def Let_def)
  have "sel_ok (replicate k sel_begin, s)"
    using assms(1) by (simp add: sel_ok_def sel_begin_inv)
  from run_schedule_inv [OF this assms(2), of sched]
  have d: "(case run_schedule sched (replicate k sel_begin, s) of
         (calls, s') \<Rightarrow>
           unat (curr_sndidx s') < length (worker_list s)
           \<and> list_all (\<lambda>c. pc c = At_load \<or> unat (result c) < length (worker_list s)) calls)"
    by (auto simp: sel_ok_def sel_inv_def list_all_length split: prod.splits)
  have e: "thread_data_list s \<noteq> [] \<and> (current cl = None \<longrightarrow> unat (uid s) < max_ev_service) \<longrightarrow>
         (\<exists>cl' s' new. submit_all max_ev_service new_pool subs (cl, s) = Inr (cl', s')
            \<and> ops s' = ops s @ new
            \<and> map fst (pushes new) =
                map (\<lambda>i. (unat (curr_sndidx s) + i) mod length (worker_list s)) [0..<length subs]
            \<and> map snd (pushes new) = map event_of subs)"
  proof (intro impI, elim conjE)
    assume t: "thread_data_list s \<noteq> []"
      and r: "current cl = None \<longrightarrow> unat (uid s) < max_ev_service"
    from r have "current cl = None \<Longrightarrow> unat (uid s) < max_ev_service"
      by simp
    from submit_all_targets [OF assms t this]
    show "\<exists>cl' s' new. submit_all max_ev_service new_pool subs (cl, s) = Inr (cl', s')
            \<and> ops s' = ops s @ new
            \<and> map fst (pushes new) =
                map (\<lambda>i. (unat (curr_sndidx s) + i) mod length (worker_list s)) [0..<length subs]
            \<and> map snd (pushes new) = map event_of subs" .
  qed
  from eq a b c d e show ?thesis
    by (intro conjI)
qed

theorem select_strand_index_round_robin_witness:
  "unat (curr_sndidx ex_service) < length (worker_list ex_service)
   \<and> length (worker_list ex_service) < 2 ^ 64
   \<and> thread_data_list ex_service \<noteq> []
   \<and> current ex_caller = None \<and> unat (uid ex_service) < 16
   \<and> select_strand_index ex_service =
       (0, ex_service\<lparr>curr_sndidx := 1,
          ops := ops ex_service @
            [Load_sndidx memory_order_relaxed, Store_sndidx 1 memory_order_relaxed]\<rparr>)
   \<and> map unat (fst (select_strand_indices 7 ex_service)) = [0, 1, 2, 0, 1, 2, 0]
   \<and> (case run_schedule [0, 1, 1, 0] (replicate 2 sel_begin, ex_service) of
        (calls, s') \<Rightarrow>
          unat (curr_sndidx s') < 3 \<and> list_all (\<lambda>c. pc c = At_load \<or> unat (result c) < 3) calls)
   \<and> (\<exists>cl' s' new.
        submit_all 16 ex_new_pool [Post 5, Spawn 6, Async 7, Async 8] (ex_caller, ex_service) =
          Inr (cl', s')
        \<and> ops s' = ops ex_service @ new
        \<and> map fst (pushes new) = [0, 1, 2, 0]
        \<and> map snd (pushes new) = [5, 6, 7, 8])
   \<and> map_sum id (\<lambda>(cl', s'). (pushes (ops s'), local_pool_queue s', map que (worker_list s')))
        (submit_all 16 ex_new_pool [Post 5, Spawn 6, Async 7, Async 8] (ex_caller, ex_service)) =
       Inr ([(0, 5), (1, 6), (2, 7), (0, 8)], [20, 21], [[5, 8], [6], [7]])"
proof -
  have a: "unat (curr_sndidx ex_service) < length (worker_list ex_service)"
    and b: "length (worker_list ex_service) < 2 ^ 64"
    and l: "length (worker_list ex_service) = 3"
    and c: "curr_sndidx ex_service = 0"
    and t: "thread_data_list ex_service \<noteq> []"
    and u: "unat (uid ex_service) < 16"
    by (simp_all add: ex_service_eq)
  have n: "current ex_caller = None"
    by (simp add: ex_caller_def)
  have m: "map (\<lambda>i. (unat (0 :: size_t) + i) mod 3) [0..<7] = [0, 1, 2, 0, 1, 2, 0]"
    by code_simp
  have m4: "map (\<lambda>i. (unat (0 :: size_t) + i) mod 3)
      [0..<length [Post 5, Spawn 6, Async 7, Async 8]] = [0, 1, 2, 0]"
    by code_simp
  have ev: "map event_of [Post 5, Spawn 6, Async 7, Async 8] = [5, 6, 7, 8]"
    by (simp add: event_of_def)
  have o: "(word_of_nat ((unat (0 :: size_t) + 1) mod 3) :: size_t) = 1"
    by simp
  note inst = select_strand_index_round_robin [OF a b, of 7 "[0, 1, 1, 0]" 2 ex_caller 16
      ex_new_pool "[Post 5, Spawn 6, Async 7, Async 8]", unfolded l c m m4 ev o]
  from inst have 1: "select_strand_index ex_service =
       (0, ex_service\<lparr>curr_sndidx := 1,
          ops := ops ex_service @
            [Load_sndidx memory_order_relaxed, Store_sndidx 1 memory_order_relaxed]\<rparr>)"
    by (rule conjunct1)
  from inst have 2: "map unat (fst (select_strand_indices 7 ex_service)) = [0, 1, 2, 0, 1, 2, 0]"
    by (elim conjE)
  from inst have 3: "(case run_schedule [0, 1, 1, 0] (replicate 2 sel_begin, ex_service) of
        (calls, s') \<Rightarrow>
          unat (curr_sndidx s') < 3 \<and> list_all (\<lambda>c. pc c = At_load \<or> unat (result c) < 3) calls)"
    by (elim conjE)
  from inst t n u have 4: "\<exists>cl' s' new.
        submit_all 16 ex_new_pool [Post 5, Spawn 6, Async 7, Async 8] (ex_caller, ex_service) =
          Inr (cl', s')
        \<and> ops s' = ops ex_service @ new
        \<and> map fst (pushes new) = [0, 1, 2, 0]
        \<and> map snd (pushes new) = [5, 6, 7, 8]"
    by blast
  have 5: "map_sum id (\<lambda>(cl', s'). (pushes (ops s'), local_pool_queue s', map que (worker_list s')))
        (submit_all 16 ex_new_pool [Post 5, Spawn 6, Async 7, Async 8] (ex_caller, ex_service)) =
       Inr ([(0, 5), (1, 6), (2, 7), (0, 8)], [20, 21], [[5, 8], [6], [7]])"
    by code_simp
  from a b t n u 1 2 3 4 5 show ?thesis
    by (intro conjI)
qed

text \<open>
  C1, as stated, fails: the load and the store are two accesses, not one atomic
  post-increment. With two workers and the counter at 0, two calls whose loads both
  come before their stores both return 0 and leave the counter at 1, where calls made
  one after the other return 0 and 1 and leave the counter at 0.
\<close>

theorem select_strand_index_interleaved_counterexample:
  "(case run_schedule [0, 1, 0, 1] ([sel_begin, sel_begin], ex_pair) of
     (calls, s) \<Rightarrow>
       map pc calls = [Returned, Returned] \<and> map result calls = [0, 0] \<and> curr_sndidx s = 1)
   \<and> fst (select_strand_indices 2 ex_pair) = [0, 1]
   \<and> curr_sndidx (snd (select_strand_indices 2 ex_pair)) = 0"
  by code_simp


subsection \<open>The prior sweep\<close>

lemma prior_sweep_two:
  assumes "do_work wkr_work a tidx prior s = Some (Inr (k1, s1))"
    and "a < length (worker_list s1)"
    and "fetch_sworks (worker_list s1 ! a) = (sw1, w1)"
    and "do_work wkr_work b tidx prior (s1\<lparr>worker_list := (worker_list s1)[a := w1]\<rparr>) =
      Some (Inr (k2, s2))"
    and "b < length (worker_list s2)"
    and "fetch_sworks (worker_list s2 ! b) = (sw2, w2)"
  shows "prior_sweep wkr_work fetch_sworks tidx [a, b] 0 expected_pworks s =
    Some (Inr (k1 + k2, expected_pworks - k1 - sw1 - (k1 + k2) - sw2,
      s2\<lparr>worker_list := (worker_list s2)[b := w2]\<rparr>))"
  using assms by (simp add: Let_def)

text \<open>
  C4. After each prior worker the sweep subtracts the running total \<open>pworks\<close> of the
  counts drained so far in the sweep, not the count of that worker alone: with two
  prior workers that drain \<open>k1\<close> and \<open>k2\<close> events, \<open>expected_pworks\<close> goes down by
  \<open>k1 + (k1 + k2)\<close> and the two \<open>sworks\<close> values, whatever \<open>work\<close> and \<open>fetch_sworks\<close>
  are. On the dispatcher with one thread and two workers, with one event queued on
  worker 0, one notification counted and \<open>expected_pworks = 1\<close>, the workers drain 1 and
  0 events, and the sweep leaves \<open>expected_pworks\<close> at \<open>-1\<close>; each worker's count taken
  once gives 0.
\<close>

theorem prior_sweep_counts_first_worker_twice:
  "pri_async 0 4 ex_pair = Inr ex_pending
   \<and> map cnt (thread_data_list ex_pending) = [1]
   \<and> map que (worker_list ex_pending) = [[4], []]
   \<and> priors 0 ex_pending = [0, 1]
   \<and> map_option (map_sum id fst) (do_work (work_at 3 ex_handle) 0 0 prior ex_pending) =
       Some (Inr 1)
   \<and> map_option (map_sum id fst) (do_work (work_at 3 ex_handle) 1 0 prior ex_pending) =
       Some (Inr 0)
   \<and> map_option (map_sum id (\<lambda>(pworks, expected_pworks, s). (pworks, sint expected_pworks)))
        (prior_sweep (work_at 3 ex_handle) (\<lambda>wkr. (0, wkr)) 0 (priors 0 ex_pending) 0 1 ex_pending) =
       Some (Inr (1, - 1))"
  by code_simp


subsection \<open>Destruction\<close>

lemma dtor_keeps_tsegv_que:
  "map tsegv_que (thread_data_list (ev_service_dtor s)) = map tsegv_que (thread_data_list s)"
proof -
  have "map tsegv_que (fst (clean_threads tds h)) = map tsegv_que tds" for tds h
    by (induction tds arbitrary: h) (simp_all add: clean_thread_def split_beta)
  then show ?thesis
    by (simp add: ev_service_dtor_def Let_def split_beta)
qed

lemma pop_unique_all_empty: "fst (pop_unique_all q h) = []"
  by (induction q arbitrary: h) simp_all

lemma pop_unique_pools_empty: "fst (pop_unique_pools q h) = []"
  by (induction q arbitrary: h) simp_all

lemma dtor_drains_tstart_texit:
  "map tstart_que (thread_data_list (ev_service_dtor s)) = replicate (length (thread_data_list s)) []
   \<and> map texit_que (thread_data_list (ev_service_dtor s)) = replicate (length (thread_data_list s)) []
   \<and> worker_list (ev_service_dtor s) = [] \<and> local_pool_queue (ev_service_dtor s) = []"
proof -
  have "map tstart_que (fst (clean_threads tds h)) = replicate (length tds) []
      \<and> map texit_que (fst (clean_threads tds h)) = replicate (length tds) []" for tds h
    by (induction tds arbitrary: h)
      (simp_all add: clean_thread_def split_beta pop_unique_all_empty)
  then show ?thesis
    by (simp add: ev_service_dtor_def Let_def split_beta pop_unique_pools_empty)
qed

text \<open>
  C5. The destructor drains the tstart and the texit queue of every thread, destroys
  every worker, which sends the events still queued on it back to their pools, and
  deletes the registered pools. It has no loop for the tsegv queue, which it leaves as
  it found it. On the dispatcher with one thread on which a thread that is not a
  dispatcher thread has registered a tstart, a texit and a tsegv handler (the events 5,
  6 and 7, from the pools 22, 23 and 24) and one event (4) is queued, the destructor
  releases 5, 6 and 4 and deletes the three pools; the tsegv event 7 is still in its
  queue and has not been released.
\<close>

theorem dtor_leaves_tsegv_queue:
  "(case pri_tstart 16 ex_new_pool (\<lambda>i. 5) ex_caller ex_pending of
     Inl e \<Rightarrow> False
   | Inr (c1, s1) \<Rightarrow>
       (case pri_texit 16 ex_new_pool (\<lambda>i. 6) c1 s1 of
         Inl e \<Rightarrow> False
       | Inr (c2, s2) \<Rightarrow>
           (case pri_tsegv 16 ex_new_pool (\<lambda>i. 7) c2 s2 of
             Inl e \<Rightarrow> False
           | Inr (c3, s3) \<Rightarrow> s3 = ex_registered)))
   \<and> map tstart_que (thread_data_list ex_registered) = [[5]]
   \<and> map texit_que (thread_data_list ex_registered) = [[6]]
   \<and> map tsegv_que (thread_data_list ex_registered) = [[7]]
   \<and> map que (worker_list ex_registered) = [[4], []]
   \<and> local_pool_queue ex_registered = [22, 23, 24]
   \<and> map tstart_que (thread_data_list (ev_service_dtor ex_registered)) = [[]]
   \<and> map texit_que (thread_data_list (ev_service_dtor ex_registered)) = [[]]
   \<and> map tsegv_que (thread_data_list (ev_service_dtor ex_registered)) = [[7]]
   \<and> worker_list (ev_service_dtor ex_registered) = []
   \<and> workshop (ev_service_dtor ex_registered) = []
   \<and> local_pool_queue (ev_service_dtor ex_registered) = []
   \<and> ops (ev_service_dtor ex_registered) =
       ops ex_registered @
         [Release 5, Release 6, Release 4, Delete_pool 22, Delete_pool 23, Delete_pool 24]"
  by code_simp

end
